theory Spec2Isabelle
  imports Complex_Main "HOL-Library.Sublist" "HOL-Library.Log_Nat"
begin

section \<open>JavaScript values and containers used by the indexer\<close>

text \<open>
  Strings are \<^typ>\<open>string\<close>; the model reads text as ASCII, one \<^typ>\<open>char\<close> per
  UTF-16 code unit, so \<open>length\<close> is JavaScript's \<open>.length\<close>.

  A \<open>Map\<close> is an association list in insertion order with distinct keys
  (\<open>Map.prototype.set\<close> on an existing key keeps the key's position); a \<open>Set\<close> of
  strings is a duplicate-free list in insertion order.
\<close>

datatype js_error = TypeError | FsError | YamlError

type_synonym ('k, 'v) jsmap = "('k \<times> 'v) list"
type_synonym jsset = "string list"

fun jsmap_set :: "('k, 'v) jsmap \<Rightarrow> 'k \<Rightarrow> 'v \<Rightarrow> ('k, 'v) jsmap" where
  "jsmap_set [] k v = [(k, v)]"
| "jsmap_set ((k', v') # m) k v =
     (if k' = k then (k, v) # m else (k', v') # jsmap_set m k v)"

definition jsmap_get :: "('k, 'v) jsmap \<Rightarrow> 'k \<Rightarrow> 'v option" where
  "jsmap_get m k = map_of m k"

definition jsmap_has :: "('k, 'v) jsmap \<Rightarrow> 'k \<Rightarrow> bool" where
  "jsmap_has m k = (map_of m k \<noteq> None)"

definition jsmap_keys :: "('k, 'v) jsmap \<Rightarrow> 'k list" where
  "jsmap_keys m = map fst m"

definition jsset_add :: "jsset \<Rightarrow> string \<Rightarrow> jsset" where
  "jsset_add s x = (if x \<in> set s then s else s @ [x])"

text \<open>
  The metadata fields that the interface \<open>DocumentMetadata\<close> declares as optional strings
  (\<open>title\<close>, \<open>category\<close>, \<open>summary\<close>) are a string, \<open>null\<close> (an empty YAML value) or
  \<open>undefined\<close>.
\<close>

datatype jsstr = SUndefined | SNull | SStr string

text \<open>
  \<open>tags\<close> and \<open>related\<close> are declared \<open>string[]\<close>, but \<open>indexDocument\<close> spreads the
  parsed frontmatter (typed \<open>any\<close>) over the defaults it computed with \<open>Array.isArray\<close>,
  so the stored value is whatever YAML gave: an array of strings, or a scalar, a mapping or
  \<open>null\<close>.
\<close>

datatype jsval = Undefined | Null | Bool bool | Num int | Str string | Arr "string list" | Obj

fun truthy :: "jsval \<Rightarrow> bool" where
  "truthy Undefined = False"
| "truthy Null = False"
| "truthy (Bool b) = b"
| "truthy (Num n) = (n \<noteq> 0)"
| "truthy (Str s) = (s \<noteq> [])"
| "truthy (Arr xs) = True"
| "truthy Obj = True"

fun truthy_str :: "jsstr \<Rightarrow> bool" where
  "truthy_str (SStr s) = (s \<noteq> [])"
| "truthy_str _ = False"

text \<open>Template-literal conversion \<open>`${v}`\<close> of an optional string.\<close>

fun template :: "jsstr \<Rightarrow> string" where
  "template SUndefined = ''undefined''"
| "template SNull = ''null''"
| "template (SStr s) = s"

subsection \<open>String methods\<close>

definition lower_char :: "char \<Rightarrow> char" where
  "lower_char c =
     (case map_of (zip ''ABCDEFGHIJKLMNOPQRSTUVWXYZ'' ''abcdefghijklmnopqrstuvwxyz'') c of
        Some l \<Rightarrow> l | None \<Rightarrow> c)"

definition upper_char :: "char \<Rightarrow> char" where
  "upper_char c =
     (case map_of (zip ''abcdefghijklmnopqrstuvwxyz'' ''ABCDEFGHIJKLMNOPQRSTUVWXYZ'') c of
        Some u \<Rightarrow> u | None \<Rightarrow> c)"

definition toLowerCase :: "string \<Rightarrow> string" where
  "toLowerCase s = map lower_char s"

text \<open>\<open>s.includes(t)\<close>: \<open>t\<close> occurs in \<open>s\<close> as a contiguous substring.\<close>

fun str_includes :: "string \<Rightarrow> string \<Rightarrow> bool" where
  "str_includes [] t = (t = [])"
| "str_includes (c # s) t = (prefix t (c # s) \<or> str_includes s t)"

text \<open>\<open>s.split(sep)\<close> for a one-character separator.\<close>

fun split_char :: "char \<Rightarrow> string \<Rightarrow> string list" where
  "split_char sep [] = [[]]"
| "split_char sep (c # s) =
     (case split_char sep s of
        [] \<Rightarrow> (if c = sep then [[], []] else [[c]])
      | w # ws \<Rightarrow> (if c = sep then [] # w # ws else (c # w) # ws))"

fun join_with :: "string \<Rightarrow> string list \<Rightarrow> string" where
  "join_with sep [] = []"
| "join_with sep [x] = x"
| "join_with sep (x # y # ys) = x @ sep @ join_with sep (y # ys)"

subsection \<open>Method calls on a value of unknown type\<close>

text \<open>
  \<open>for (const x of v)\<close>: an array yields its elements, a string its characters, anything
  else is not iterable.
\<close>

fun iterate :: "jsval \<Rightarrow> js_error + string list" where
  "iterate (Arr xs) = Inr xs"
| "iterate (Str s) = Inr (map (\<lambda>c. [c]) s)"
| "iterate _ = Inl TypeError"

text \<open>
  \<open>v?.includes(x)\<close> read as a condition: \<open>undefined\<close> (falsy) when \<open>v\<close> is nullish,
  membership for an array, substring test for a string, and a \<open>TypeError\<close> when \<open>v\<close> has
  no method \<open>includes\<close>.
\<close>

fun opt_includes :: "jsval \<Rightarrow> string \<Rightarrow> js_error + bool" where
  "opt_includes Undefined x = Inr False"
| "opt_includes Null x = Inr False"
| "opt_includes (Arr xs) x = Inr (x \<in> set xs)"
| "opt_includes (Str s) x = Inr (str_includes s x)"
| "opt_includes _ x = Inl TypeError"

text \<open>\<open>xs.filter(f)\<close>, \<open>xs.every(f)\<close> and \<open>xs.some(f)\<close> with a callback that may throw.\<close>

fun filterE :: "('a \<Rightarrow> js_error + bool) \<Rightarrow> 'a list \<Rightarrow> js_error + 'a list" where
  "filterE f [] = Inr []"
| "filterE f (x # xs) =
     (case f x of
        Inl e \<Rightarrow> Inl e
      | Inr b \<Rightarrow> (case filterE f xs of
                   Inl e \<Rightarrow> Inl e
                 | Inr ys \<Rightarrow> Inr (if b then x # ys else ys)))"

fun everyE :: "('a \<Rightarrow> js_error + bool) \<Rightarrow> 'a list \<Rightarrow> js_error + bool" where
  "everyE f [] = Inr True"
| "everyE f (x # xs) =
     (case f x of
        Inl e \<Rightarrow> Inl e
      | Inr b \<Rightarrow> (if b then everyE f xs else Inr False))"

text \<open>\<open>v?.filter(f) || []\<close>.\<close>

fun opt_filter :: "jsval \<Rightarrow> (string \<Rightarrow> js_error + bool) \<Rightarrow> js_error + string list" where
  "opt_filter Undefined f = Inr []"
| "opt_filter Null f = Inr []"
| "opt_filter (Arr xs) f = filterE f xs"
| "opt_filter _ f = Inl TypeError"

text \<open>\<open>v?.some(f)\<close> read as a condition; the callbacks used here never throw.\<close>

fun opt_some :: "jsval \<Rightarrow> (string \<Rightarrow> bool) \<Rightarrow> js_error + bool" where
  "opt_some Undefined f = Inr False"
| "opt_some Null f = Inr False"
| "opt_some (Arr xs) f = Inr (list_ex f xs)"
| "opt_some _ f = Inl TypeError"

section \<open>Data model (types.ts)\<close>

record DocumentMetadata =
  title :: jsstr
  tags :: jsval
  category :: jsstr
  related :: jsval
  summary :: jsstr

record Document =
  path :: string
  content :: string
  metadata :: DocumentMetadata
  lastModified :: int

record 'n DocumentIndex =
  documents :: "(string, Document) jsmap"
  keywords_index :: "(string, jsset) jsmap"
  categories :: "(string, jsset) jsmap"
  tags_index :: "(string, jsset) jsmap"
  tfidf :: "(string, (string, 'n) jsmap) jsmap"
  relationships :: "(string, jsset) jsmap"

text \<open>
  The class \<open>DocumentIndexer\<close>, with the working directory of the process, which
  \<open>path.relative\<close> reads when one of its arguments is not absolute. The maps \<open>keywords\<close>
  and \<open>tags\<close> of the index are named \<open>keywords_index\<close> and \<open>tags_index\<close> here.
\<close>

record 'n DocumentIndexer =
  index :: "'n DocumentIndex"
  docsPath :: string
  cwd :: string

definition empty_index :: "'n DocumentIndex" where
  "empty_index = \<lparr>documents = [], keywords_index = [], categories = [], tags_index = [],
     tfidf = [], relationships = []\<rparr>"

section \<open>Paths (Node's POSIX \<open>path\<close> module)\<close>

definition path_isAbsolute :: "string \<Rightarrow> bool" where
  "path_isAbsolute p = (case p of [] \<Rightarrow> False | c # _ \<Rightarrow> c = CHR ''/'')"

text \<open>\<open>path.resolve\<close>: the segments of the absolute, normalised path.\<close>

definition resolve_step :: "string \<Rightarrow> string list \<Rightarrow> string list" where
  "resolve_step seg st =
     (if seg = [] \<or> seg = ''.'' then st
      else if seg = ''..'' then butlast st
      else st @ [seg])"

definition path_resolve :: "string \<Rightarrow> string \<Rightarrow> string list" where
  "path_resolve wd p =
     fold resolve_step
       (split_char CHR ''/'' (if path_isAbsolute p then p else wd @ ''/'' @ p)) []"

fun common_prefix_length :: "string list \<Rightarrow> string list \<Rightarrow> nat" where
  "common_prefix_length (x # xs) (y # ys) =
     (if x = y then Suc (common_prefix_length xs ys) else 0)"
| "common_prefix_length _ _ = 0"

definition path_relative :: "string \<Rightarrow> string \<Rightarrow> string \<Rightarrow> string" where
  "path_relative wd from to =
     (let f = path_resolve wd from; t = path_resolve wd to;
          n = common_prefix_length f t
      in join_with ''/'' (replicate (length f - n) ''..'' @ drop n t))"

text \<open>\<open>path.normalize\<close> and \<open>path.join\<close> of a directory and an entry name.\<close>

definition normalize_step :: "bool \<Rightarrow> string \<Rightarrow> string list \<Rightarrow> string list" where
  "normalize_step absolute seg st =
     (if seg = [] \<or> seg = ''.'' then st
      else if seg = ''..'' then
        (if st \<noteq> [] \<and> last st \<noteq> ''..'' then butlast st
         else if absolute then st else st @ [seg])
      else st @ [seg])"

definition path_normalize :: "string \<Rightarrow> string" where
  "path_normalize p =
     (if p = [] then ''.''
      else
        let absolute = path_isAbsolute p;
            trailing = (last p = CHR ''/'');
            body = join_with ''/''
                     (fold (normalize_step absolute) (split_char CHR ''/'' p) [])
        in if body = [] then (if absolute then ''/'' else if trailing then ''./'' else ''.'')
           else (if absolute then ''/'' else []) @ body @ (if trailing then ''/'' else []))"

definition path_join :: "string \<Rightarrow> string \<Rightarrow> string" where
  "path_join dir name =
     (if dir = [] \<and> name = [] then ''.''
      else if dir = [] then path_normalize name
      else if name = [] then path_normalize dir
      else path_normalize (dir @ ''/'' @ name))"

text \<open>\<open>path.basename(p, '.md')\<close>.\<close>

definition path_basename_md :: "string \<Rightarrow> string" where
  "path_basename_md p =
     (if p = ''.md'' then []
      else
        let base = (case filter (\<lambda>s. s \<noteq> []) (split_char CHR ''/'' p) of
                      [] \<Rightarrow> [] | segs \<Rightarrow> last segs)
        in if suffix ''.md'' base \<and> base \<noteq> ''.md''
           then take (length base - 3) base else base)"

section \<open>The indexer (indexer.ts): lookups\<close>

definition getRelativePath :: "'n DocumentIndexer \<Rightarrow> string \<Rightarrow> string" where
  "getRelativePath this filePath = path_relative (cwd this) (docsPath this) filePath"

text \<open>\<open>docPath.replace(/^\.\.?\//, '')\<close>: one leading \<open>./\<close> or \<open>../\<close> is removed.\<close>

definition strip_dot_prefix :: "string \<Rightarrow> string" where
  "strip_dot_prefix p =
     (if prefix ''./'' p then drop 2 p
      else if prefix ''../'' p then drop 3 p
      else p)"

definition normalizePath :: "'n DocumentIndexer \<Rightarrow> string \<Rightarrow> string" where
  "normalizePath this docPath =
     (if path_isAbsolute docPath then getRelativePath this docPath
      else strip_dot_prefix docPath)"

definition getDocument :: "'n DocumentIndexer \<Rightarrow> string \<Rightarrow> Document option" where
  "getDocument this docPath = jsmap_get (documents (index this)) docPath"

section \<open>External libraries and JavaScript numbers\<close>

text \<open>
  The packages \<open>natural\<close> (tokenizer, TF-IDF) and \<open>gray-matter\<close> (frontmatter parser) are
  not part of the repository; the indexer is modelled for any behaviour of them.
  \<open>tokenize\<close> is \<open>WordTokenizer.tokenize\<close>; \<open>listTerms texts i\<close> is what
  \<open>TfIdf.listTerms(i)\<close> returns after \<open>addDocument\<close> was called on \<open>texts\<close> in order
  (the pairs \<open>(item.term, item.tfidf)\<close>); \<open>matter\<close> is the parser, which may throw.

  The search scores and the TF-IDF weights are JavaScript numbers, that is IEEE-754
  doubles. They are the values of the type \<open>'n\<close>, with their order; \<open>js_num k\<close> is the
  double of the integer literal \<open>k\<close> and \<open>js_add\<close> is the operator \<open>+\<close> on doubles, which
  rounds its result. Nothing is assumed of \<open>js_add\<close> in the model: a sum of several numbers
  is computed in the order in which the code adds them, and may depend on that order.
  A property that rests on laws of the addition has them as a hypothesis; the section on
  the addition of doubles below defines the addition of binary64 numbers that are not
  negative, which has these laws and with which the concrete corpora are run.
  A weight that is \<open>NaN\<close> is falsy, so \<open>w || 0\<close> reads it as \<open>0\<close>; \<open>'n\<close> has no such value.
\<close>

record frontmatter =
  fm_title :: jsstr
  fm_tags :: jsval
  fm_category :: jsstr
  fm_related :: jsval
  fm_summary :: jsstr

record GrayMatterFile =
  fm_data :: frontmatter
  fm_content :: string

record 'n Libraries =
  tokenize :: "string \<Rightarrow> string list"
  listTerms :: "string list \<Rightarrow> nat \<Rightarrow> (string \<times> 'n) list"
  matter :: "string \<Rightarrow> js_error + GrayMatterFile"
  js_num :: "nat \<Rightarrow> 'n"
  js_add :: "'n \<Rightarrow> 'n \<Rightarrow> 'n"

section \<open>The file system\<close>

text \<open>
  The directory tree below the documents root, as \<open>fs.readdir(dir, {withFileTypes: true})\<close>
  shows it: an entry is a regular file, a directory (with the result of reading it;
  \<open>None\<close> when \<open>readdir\<close> throws) or anything else. \<open>root_entries\<close> is the result of
  reading the root itself. Files are read by path.
\<close>

datatype dirent = FileEnt string | DirEnt string "dirent list option" | OtherEnt string

record filesystem =
  root_entries :: "dirent list option"
  readFile :: "string \<Rightarrow> js_error + string"
  stat_mtimeMs :: "string \<Rightarrow> js_error + int"

section \<open>Building the index\<close>

subsection \<open>findMarkdownFiles\<close>

text \<open>The \<open>catch\<close> block logs a warning and the function returns the files found so far.\<close>

fun findMarkdownFiles :: "string \<Rightarrow> dirent list option \<Rightarrow> string list" where
  "findMarkdownFiles dir None = []"
| "findMarkdownFiles dir (Some entries) =
     concat (map (\<lambda>entry.
                    case entry of
                      DirEnt name sub \<Rightarrow> findMarkdownFiles (path_join dir name) sub
                    | FileEnt name \<Rightarrow>
                        if suffix ''.md'' name then [path_join dir name] else []
                    | OtherEnt name \<Rightarrow> [])
                 entries)"

subsection \<open>Defaults inferred from the path and the body\<close>

definition capitalize :: "string \<Rightarrow> string" where
  "capitalize w = (case w of [] \<Rightarrow> [] | c # cs \<Rightarrow> upper_char c # cs)"

definition extractTitleFromPath :: "string \<Rightarrow> string" where
  "extractTitleFromPath filePath =
     join_with '' '' (map capitalize (split_char CHR ''-'' (path_basename_md filePath)))"

definition extractCategoryFromPath :: "'n DocumentIndexer \<Rightarrow> string \<Rightarrow> string" where
  "extractCategoryFromPath this filePath =
     (let parts = split_char CHR ''/'' (getRelativePath this filePath)
      in if length parts > 1 then parts ! (length parts - 2) else ''general'')"

definition newline :: char where
  "newline = CHR 0x0A"

definition is_space :: "char \<Rightarrow> bool" where
  "is_space c = (c \<in> set [CHR '' '', CHR 0x09, CHR 0x0A, CHR 0x0B, CHR 0x0C, CHR 0x0D])"

text \<open>\<open>content.split('\n\n')\<close>.\<close>

fun split_paragraphs :: "string \<Rightarrow> string list" where
  "split_paragraphs [] = [[]]"
| "split_paragraphs [c] = [[c]]"
| "split_paragraphs (c # d # s) =
     (if c = newline \<and> d = newline then [] # split_paragraphs s
      else case split_paragraphs (d # s) of
             [] \<Rightarrow> [[c]]
           | w # ws \<Rightarrow> (c # w) # ws)"

definition trim :: "string \<Rightarrow> string" where
  "trim s = rev (dropWhile is_space (rev (dropWhile is_space s)))"

text \<open>\<open>s.replace(/^#+\s+/, '')\<close>.\<close>

definition strip_heading :: "string \<Rightarrow> string" where
  "strip_heading s =
     (let r = dropWhile (\<lambda>c. c = CHR ''#'') s
      in if takeWhile (\<lambda>c. c = CHR ''#'') s \<noteq> [] \<and> takeWhile is_space r \<noteq> []
         then dropWhile is_space r else s)"

fun first_paragraph :: "string list \<Rightarrow> string" where
  "first_paragraph [] = []"
| "first_paragraph (para # rest) =
     (let cleaned = strip_heading (trim para)
      in if length cleaned > 20 then take 200 cleaned else first_paragraph rest)"

definition extractFirstParagraph :: "string \<Rightarrow> string" where
  "extractFirstParagraph body = first_paragraph (split_paragraphs body)"

subsection \<open>indexDocument\<close>

text \<open>
  The object literal: the five defaults, then \<open>...parsed.data\<close>, which overwrites every
  default whose key the frontmatter has (a key the frontmatter lacks reads \<open>undefined\<close>).
\<close>

definition spread :: "DocumentMetadata \<Rightarrow> frontmatter \<Rightarrow> DocumentMetadata" where
  "spread m d =
     \<lparr>title = (if fm_title d = SUndefined then title m else fm_title d),
      tags = (if fm_tags d = Undefined then tags m else fm_tags d),
      category = (if fm_category d = SUndefined then category m else fm_category d),
      related = (if fm_related d = Undefined then related m else fm_related d),
      summary = (if fm_summary d = SUndefined then summary m else fm_summary d)\<rparr>"

definition buildMetadata :: "'n DocumentIndexer \<Rightarrow> string \<Rightarrow> GrayMatterFile \<Rightarrow> DocumentMetadata" where
  "buildMetadata this filePath parsed =
     (let d = fm_data parsed
      in spread
           \<lparr>title = (if truthy_str (fm_title d) then fm_title d
                     else SStr (extractTitleFromPath filePath)),
            tags = (case fm_tags d of Arr xs \<Rightarrow> Arr xs | _ \<Rightarrow> Arr []),
            category = (if truthy_str (fm_category d) then fm_category d
                        else SStr (extractCategoryFromPath this filePath)),
            related = (case fm_related d of Arr xs \<Rightarrow> Arr xs | _ \<Rightarrow> Arr []),
            summary = (if truthy_str (fm_summary d) then fm_summary d
                       else SStr (extractFirstParagraph (fm_content parsed)))\<rparr>
           d)"

text \<open>
  \<open>if (!m.has(key)) m.set(key, new Set()); m.get(key)!.add(docPath)\<close> on one of the
  inverted indices.
\<close>

definition index_add :: "(string, jsset) jsmap \<Rightarrow> string \<Rightarrow> string \<Rightarrow> (string, jsset) jsmap" where
  "index_add m key docPath =
     (let m' = (if \<not> jsmap_has m key then jsmap_set m key [] else m)
      in case jsmap_get m' key of
           None \<Rightarrow> m'
         | Some ds \<Rightarrow> jsmap_set m' key (jsset_add ds docPath))"

definition indexText :: "Document \<Rightarrow> string" where
  "indexText doc =
     template (title (metadata doc)) @ '' '' @ template (summary (metadata doc)) @ '' ''
       @ content doc"

definition indexKeywords :: "'n Libraries \<Rightarrow> Document \<Rightarrow> 'n DocumentIndexer \<Rightarrow> 'n DocumentIndexer" where
  "indexKeywords L doc this =
     (let tokens = tokenize L (toLowerCase (indexText doc))
      in fold (\<lambda>token t.
                 if length token > 2
                 then t\<lparr>index := (index t)\<lparr>keywords_index :=
                          index_add (keywords_index (index t)) token (path doc)\<rparr>\<rparr>
                 else t)
              tokens this)"

text \<open>
  The body of the \<open>try\<close> block: the error thrown, if any, and the indexer as the statements
  executed before it left it. \<open>registerDocument\<close> is the part after \<open>doc\<close> has been
  built: the documents map, the keywords, the category and the tags.
\<close>

definition registerDocument ::
  "'n Libraries \<Rightarrow> Document \<Rightarrow> 'n DocumentIndexer \<Rightarrow> js_error option \<times> 'n DocumentIndexer" where
  "registerDocument L doc this =
     (let this1 = this\<lparr>index := (index this)\<lparr>documents :=
                    jsmap_set (documents (index this)) (path doc) doc\<rparr>\<rparr>;
          this2 = indexKeywords L doc this1;
          this3 = (case category (metadata doc) of
                     SStr c \<Rightarrow>
                       if c \<noteq> [] then
                         this2\<lparr>index := (index this2)\<lparr>categories :=
                           index_add (categories (index this2)) c (path doc)\<rparr>\<rparr>
                       else this2
                   | _ \<Rightarrow> this2)
      in if truthy (tags (metadata doc)) then
           (case iterate (tags (metadata doc)) of
              Inl e \<Rightarrow> (Some e, this3)
            | Inr ts \<Rightarrow>
                (None,
                 fold (\<lambda>tag t. t\<lparr>index := (index t)\<lparr>tags_index :=
                         index_add (tags_index (index t)) tag (path doc)\<rparr>\<rparr>)
                      ts this3))
         else (None, this3))"

definition indexDocument_try ::
  "'n Libraries \<Rightarrow> filesystem \<Rightarrow> string \<Rightarrow> 'n DocumentIndexer \<Rightarrow> js_error option \<times> 'n DocumentIndexer" where
  "indexDocument_try L fs filePath this =
     (case readFile fs filePath of
        Inl e \<Rightarrow> (Some e, this)
      | Inr text \<Rightarrow>
     (case stat_mtimeMs fs filePath of
        Inl e \<Rightarrow> (Some e, this)
      | Inr mtimeMs \<Rightarrow>
     (case matter L text of
        Inl e \<Rightarrow> (Some e, this)
      | Inr parsed \<Rightarrow>
          registerDocument L
            \<lparr>path = getRelativePath this filePath, content = fm_content parsed,
             metadata = buildMetadata this filePath parsed, lastModified = mtimeMs\<rparr>
            this)))"

text \<open>The \<open>catch\<close> block logs the error; \<open>indexDocument\<close> itself never throws.\<close>

definition indexDocument ::
  "'n Libraries \<Rightarrow> filesystem \<Rightarrow> string \<Rightarrow> 'n DocumentIndexer \<Rightarrow> 'n DocumentIndexer" where
  "indexDocument L fs filePath this = snd (indexDocument_try L fs filePath this)"

subsection \<open>buildTfIdfIndex\<close>

text \<open>
  The map \<open>scores\<close> of one document: every item that \<open>listTerms\<close> gives is stored under
  its term. \<open>corpusTexts\<close> are the texts handed to \<open>addDocument\<close>, in the order of the
  documents map.
\<close>

definition termScores :: "(string \<times> 'n) list \<Rightarrow> (string, 'n) jsmap" where
  "termScores items = fold (\<lambda>(trm, w) scores. jsmap_set scores trm w) items []"

definition corpusTexts :: "(string, Document) jsmap \<Rightarrow> string list" where
  "corpusTexts docs = map (\<lambda>(p, doc). indexText doc) docs"

definition buildTfIdfIndex :: "'n Libraries \<Rightarrow> 'n DocumentIndexer \<Rightarrow> 'n DocumentIndexer" where
  "buildTfIdfIndex L this =
     (let docs = documents (index this);
          texts = corpusTexts docs;
          docPaths = map fst docs
      in fold (\<lambda>(docPath, docIndex) t.
                 t\<lparr>index := (index t)\<lparr>tfidf :=
                     jsmap_set (tfidf (index t)) docPath
                       (termScores (listTerms L texts docIndex))\<rparr>\<rparr>)
              (zip docPaths [0..<length docPaths]) this)"

subsection \<open>buildRelationships\<close>

text \<open>
  The targets \<open>match[2]\<close> of the successive matches of
  \<open>/\[([^\]]+)\]\(([^)]+\.md)\)/g\<close>. \<open>link_at\<close> matches at the start of its argument and
  returns the target with the text after the match.
\<close>

definition link_at :: "string \<Rightarrow> (string \<times> string) option" where
  "link_at s =
     (case s of
        [] \<Rightarrow> None
      | c # r \<Rightarrow>
          if c \<noteq> CHR ''['' then None
          else
            let label = takeWhile (\<lambda>x. x \<noteq> CHR '']'') r;
                r1 = dropWhile (\<lambda>x. x \<noteq> CHR '']'') r
            in if label = [] \<or> \<not> prefix ''](''  r1 then None
               else
                 let target = takeWhile (\<lambda>x. x \<noteq> CHR '')'') (drop 2 r1);
                     r2 = dropWhile (\<lambda>x. x \<noteq> CHR '')'') (drop 2 r1)
                 in if r2 \<noteq> [] \<and> suffix ''.md'' target \<and> length target > 3
                    then Some (target, tl r2) else None)"

function extractLinks :: "string \<Rightarrow> string list" where
  "extractLinks [] = []"
| "extractLinks (c # r) =
     (case link_at (c # r) of
        None \<Rightarrow> extractLinks r
      | Some (target, rest) \<Rightarrow>
          if length rest < length (c # r) then target # extractLinks rest else [target])"
  by pat_completeness auto
termination
  by (relation "measure length") auto

text \<open>The explicit relationships of the frontmatter: \<open>related\<close> after that loop.\<close>

definition explicit_related :: "'n DocumentIndexer \<Rightarrow> Document \<Rightarrow> js_error + jsset" where
  "explicit_related this doc =
     (if truthy (related (metadata doc)) then
        (case iterate (related (metadata doc)) of
           Inl e \<Rightarrow> Inl e
         | Inr rels \<Rightarrow>
             Inr (fold (\<lambda>rel r.
                          let normalizedRel = normalizePath this rel
                          in if jsmap_has (documents (index this)) normalizedRel
                             then jsset_add r normalizedRel else r)
                       rels []))
      else Inr [])"

text \<open>The implicit relationships: the inner loop over all documents.\<close>

fun implicit_related ::
  "string \<Rightarrow> Document \<Rightarrow> (string, Document) jsmap \<Rightarrow> jsset \<Rightarrow> js_error + jsset" where
  "implicit_related docPath doc [] rel = Inr rel"
| "implicit_related docPath doc ((otherPath, otherDoc) # rest) rel =
     (if otherPath = docPath then implicit_related docPath doc rest rel
      else
        let rel1 = (if truthy_str (category (metadata doc))
                       \<and> category (metadata doc) = category (metadata otherDoc)
                    then jsset_add rel otherPath else rel)
        in case opt_filter (tags (metadata doc))
                  (\<lambda>tag. opt_includes (tags (metadata otherDoc)) tag) of
             Inl e \<Rightarrow> Inl e
           | Inr sharedTags \<Rightarrow>
               implicit_related docPath doc rest
                 (if length sharedTags \<ge> 2 then jsset_add rel1 otherPath else rel1))"

definition linked_related :: "'n DocumentIndexer \<Rightarrow> Document \<Rightarrow> jsset \<Rightarrow> jsset" where
  "linked_related this doc rel =
     fold (\<lambda>target r.
             let linkedPath = normalizePath this target
             in if jsmap_has (documents (index this)) linkedPath
                then jsset_add r linkedPath else r)
          (extractLinks (content doc)) rel"

definition relatedOf :: "'n DocumentIndexer \<Rightarrow> string \<Rightarrow> Document \<Rightarrow> js_error + jsset" where
  "relatedOf this docPath doc =
     (case explicit_related this doc of
        Inl e \<Rightarrow> Inl e
      | Inr rel \<Rightarrow>
          (case implicit_related docPath doc (documents (index this)) rel of
             Inl e \<Rightarrow> Inl e
           | Inr rel' \<Rightarrow> Inr (linked_related this doc rel')))"

text \<open>
  The outer loop; \<open>rels\<close> is \<open>this.index.relationships\<close> as filled so far. An error leaves
  the loop with the entries set before it.
\<close>

fun relationships_loop ::
  "'n DocumentIndexer \<Rightarrow> (string, Document) jsmap \<Rightarrow> (string, jsset) jsmap \<Rightarrow>
   js_error option \<times> (string, jsset) jsmap" where
  "relationships_loop this [] rels = (None, rels)"
| "relationships_loop this ((docPath, doc) # rest) rels =
     (case relatedOf this docPath doc of
        Inl e \<Rightarrow> (Some e, rels)
      | Inr rel \<Rightarrow> relationships_loop this rest (jsmap_set rels docPath rel))"

definition buildRelationships :: "'n DocumentIndexer \<Rightarrow> js_error option \<times> 'n DocumentIndexer" where
  "buildRelationships this =
     (case relationships_loop this (documents (index this)) (relationships (index this)) of
        (err, rels) \<Rightarrow> (err, this\<lparr>index := (index this)\<lparr>relationships := rels\<rparr>\<rparr>))"

subsection \<open>buildIndex\<close>

text \<open>
  The promise \<open>buildIndex\<close> returns: rejected with the error (\<open>Some e\<close>) or resolved
  (\<open>None\<close>), together with the indexer it leaves behind.
\<close>

definition buildIndex ::
  "'n Libraries \<Rightarrow> filesystem \<Rightarrow> 'n DocumentIndexer \<Rightarrow> js_error option \<times> 'n DocumentIndexer" where
  "buildIndex L fs this =
     (let this0 = this\<lparr>index := empty_index\<rparr>;
          files = findMarkdownFiles (docsPath this0) (root_entries fs);
          this1 = fold (indexDocument L fs) files this0;
          this2 = buildTfIdfIndex L this1
      in buildRelationships this2)"

section \<open>search\<close>

text \<open>\<open>category && doc.metadata.category !== category\<close>.\<close>

definition category_excluded :: "string option \<Rightarrow> Document \<Rightarrow> bool" where
  "category_excluded cat doc =
     (case cat of
        None \<Rightarrow> False
      | Some c \<Rightarrow> c \<noteq> [] \<and> category (metadata doc) \<noteq> SStr c)"

text \<open>\<open>tags.every(tag => doc.metadata.tags?.includes(tag))\<close>.\<close>

definition hasAllTags :: "string list \<Rightarrow> Document \<Rightarrow> js_error + bool" where
  "hasAllTags ts doc = everyE (\<lambda>tag. opt_includes (tags (metadata doc)) tag) ts"

text \<open>
  The four scoring loops, each adding to the running \<open>score\<close> with the addition of
  doubles, token by token.
\<close>

definition keyword_points ::
  "'n Libraries \<Rightarrow> 'n DocumentIndex \<Rightarrow> string \<Rightarrow> string list \<Rightarrow> 'n \<Rightarrow> 'n" where
  "keyword_points L ix docPath queryTokens score =
     fold (\<lambda>token s.
             if (case jsmap_get (keywords_index ix) token of
                   None \<Rightarrow> False
                 | Some ds \<Rightarrow> docPath \<in> set ds)
             then js_add L s (js_num L 1) else s)
          queryTokens score"

definition tfidf_points ::
  "'n Libraries \<Rightarrow> 'n DocumentIndex \<Rightarrow> string \<Rightarrow> string list \<Rightarrow> 'n \<Rightarrow> 'n" where
  "tfidf_points L ix docPath queryTokens score =
     (case jsmap_get (tfidf ix) docPath of
        None \<Rightarrow> score
      | Some tfidfScores \<Rightarrow>
          fold (\<lambda>token s.
                  js_add L s
                    (case jsmap_get tfidfScores token of None \<Rightarrow> js_num L 0 | Some w \<Rightarrow> w))
               queryTokens score)"

definition title_points :: "'n Libraries \<Rightarrow> Document \<Rightarrow> string list \<Rightarrow> 'n \<Rightarrow> 'n" where
  "title_points L doc queryTokens score =
     (let titleLower = (case title (metadata doc) of SStr t \<Rightarrow> toLowerCase t | _ \<Rightarrow> [])
      in fold (\<lambda>token s. if str_includes titleLower token then js_add L s (js_num L 5) else s)
              queryTokens score)"

fun tag_points :: "'n Libraries \<Rightarrow> Document \<Rightarrow> string list \<Rightarrow> 'n \<Rightarrow> js_error + 'n" where
  "tag_points L doc [] score = Inr score"
| "tag_points L doc (token # rest) score =
     (case opt_some (tags (metadata doc)) (\<lambda>tag. str_includes (toLowerCase tag) token) of
        Inl e \<Rightarrow> Inl e
      | Inr b \<Rightarrow> tag_points L doc rest (if b then js_add L score (js_num L 3) else score))"

definition documentScore ::
  "'n Libraries \<Rightarrow> 'n DocumentIndex \<Rightarrow> string list \<Rightarrow> string \<Rightarrow> Document \<Rightarrow>
   js_error + 'n" where
  "documentScore L ix queryTokens docPath doc =
     tag_points L doc queryTokens
       (title_points L doc queryTokens
          (tfidf_points L ix docPath queryTokens
             (keyword_points L ix docPath queryTokens (js_num L 0))))"

text \<open>The loop over \<open>this.index.documents\<close>; \<open>scores\<close> is the map being filled.\<close>

fun search_loop ::
  "('n::linorder) Libraries \<Rightarrow> 'n DocumentIndex \<Rightarrow> string list \<Rightarrow> string option \<Rightarrow>
   string list option \<Rightarrow> (string, Document) jsmap \<Rightarrow> (string, 'n) jsmap \<Rightarrow>
   js_error + (string, 'n) jsmap" where
  "search_loop L ix queryTokens cat tgs [] scores = Inr scores"
| "search_loop L ix queryTokens cat tgs ((docPath, doc) # rest) scores =
     (if category_excluded cat doc then search_loop L ix queryTokens cat tgs rest scores
      else
        case (case tgs of
                None \<Rightarrow> Inr True
              | Some ts \<Rightarrow> if length ts > 0 then hasAllTags ts doc else Inr True) of
          Inl e \<Rightarrow> Inl e
        | Inr False \<Rightarrow> search_loop L ix queryTokens cat tgs rest scores
        | Inr True \<Rightarrow>
            (case documentScore L ix queryTokens docPath doc of
               Inl e \<Rightarrow> Inl e
             | Inr score \<Rightarrow>
                 search_loop L ix queryTokens cat tgs rest
                   (if score > js_num L 0 then jsmap_set scores docPath score else scores)))"

text \<open>
  \<open>entries.sort((a, b) => b[1] - a[1])\<close>: descending by score; \<open>Array.prototype.sort\<close>
  is stable, so entries of equal score keep their insertion order.
\<close>

definition sort_by_score :: "(string \<times> 'n::linorder) list \<Rightarrow> (string \<times> 'n) list" where
  "sort_by_score entries = rev (sort_key snd (rev entries))"

definition search ::
  "('n::linorder) Libraries \<Rightarrow> 'n DocumentIndexer \<Rightarrow> string \<Rightarrow> string option \<Rightarrow>
   string list option \<Rightarrow> js_error + string list" where
  "search L this query cat tgs =
     (let queryTokens = tokenize L (toLowerCase query)
      in case search_loop L (index this) queryTokens cat tgs (documents (index this)) [] of
           Inl e \<Rightarrow> Inl e
         | Inr scores \<Rightarrow> Inr (map fst (sort_by_score scores)))"

section \<open>getRelatedDocuments\<close>

definition relatedScore :: "Document option \<Rightarrow> Document option \<Rightarrow> string \<Rightarrow> js_error + nat" where
  "relatedScore doc relDoc relPath =
     (case (relDoc, doc) of
        (Some rd, Some d) \<Rightarrow>
          (case opt_filter (tags (metadata d)) (\<lambda>tag. opt_includes (tags (metadata rd)) tag) of
             Inl e \<Rightarrow> Inl e
           | Inr sharedTags \<Rightarrow>
               (case opt_includes (related (metadata d)) relPath of
                  Inl e \<Rightarrow> Inl e
                | Inr explicit \<Rightarrow>
                    Inr (1 + (if category (metadata d) = category (metadata rd) then 2 else 0)
                           + length sharedTags
                           + (if explicit then 5 else 0))))
      | _ \<Rightarrow> Inr 1)"

fun related_loop ::
  "'n DocumentIndex \<Rightarrow> Document option \<Rightarrow> string list \<Rightarrow> (string, nat) jsmap \<Rightarrow>
   js_error + (string, nat) jsmap" where
  "related_loop ix doc [] scores = Inr scores"
| "related_loop ix doc (relPath # rest) scores =
     (case relatedScore doc (jsmap_get (documents ix) relPath) relPath of
        Inl e \<Rightarrow> Inl e
      | Inr score \<Rightarrow> related_loop ix doc rest (jsmap_set scores relPath score))"

text \<open>\<open>xs.slice(0, limit)\<close> for an integral \<open>limit\<close>.\<close>

definition slice0 :: "'a list \<Rightarrow> int \<Rightarrow> 'a list" where
  "slice0 xs n = (if n < 0 then take (length xs - nat (- n)) xs else take (nat n) xs)"

definition getRelatedDocuments ::
  "'n DocumentIndexer \<Rightarrow> string \<Rightarrow> int option \<Rightarrow> js_error + string list" where
  "getRelatedDocuments this docPath limit =
     (case jsmap_get (relationships (index this)) docPath of
        None \<Rightarrow> Inr []
      | Some rel \<Rightarrow>
          if length rel = 0 then Inr []
          else
            (case related_loop (index this) (jsmap_get (documents (index this)) docPath) rel [] of
               Inl e \<Rightarrow> Inl e
             | Inr scores \<Rightarrow>
                 Inr (map fst (slice0 (sort_by_score scores)
                                      (case limit of None \<Rightarrow> 10 | Some n \<Rightarrow> n)))))"

section \<open>The addition of doubles\<close>

text \<open>
  The doubles (binary64 numbers) that are not negative and are integral multiples of
  \<open>1 / 2 ^ e\<close>, each given by the integer \<open>d * 2 ^ e\<close>, and \<open>+Infinity\<close>, given by
  \<open>binary64_infinity e\<close>. For \<open>e = 1074\<close> these are all the doubles that are not
  negative, \<open>1 / 2 ^ 1074\<close> being the least positive one; for a smaller \<open>e\<close> they are
  some of them. The exact sum of two such numbers is again a multiple of \<open>1 / 2 ^ e\<close>,
  and so is the double it is rounded to, so that these numbers are closed under the
  addition of doubles; no sum of them is \<open>NaN\<close>, and the order of the integers is the
  order of the doubles. A negative integer stands for no number.

  \<open>round_even k s\<close> is the multiple of \<open>2 ^ k\<close> nearest to \<open>s\<close>, the one with the even
  quotient when \<open>s\<close> lies half-way between two. \<open>binary64_round\<close> rounds to a significand
  of 53 bits, and to \<open>+Infinity\<close> when that gives \<open>2 ^ 1024\<close> or more; \<open>binary64_add\<close> is
  the exact sum, rounded (IEEE 754, round to nearest, ties to even), and \<open>binary64_num e k\<close>
  is the double of the integer literal \<open>k\<close>.
\<close>

definition round_even :: "nat \<Rightarrow> int \<Rightarrow> int" where
  "round_even k s =
     (let q = s div 2 ^ k; r = s mod 2 ^ k
      in (if 2 ^ k < 2 * r \<or> (2 * r = 2 ^ k \<and> odd q) then q + 1 else q) * 2 ^ k)"

definition binary64_infinity :: "nat \<Rightarrow> int" where
  "binary64_infinity e = 2 ^ (1024 + e)"

definition binary64_round :: "nat \<Rightarrow> int \<Rightarrow> int" where
  "binary64_round e s =
     (let m = round_even (nat (bitlen s - 53)) s
      in if int (1024 + e) < bitlen m then binary64_infinity e else m)"

definition binary64_add :: "nat \<Rightarrow> int \<Rightarrow> int \<Rightarrow> int" where
  "binary64_add e x y = binary64_round e (x + y)"

definition binary64_num :: "nat \<Rightarrow> nat \<Rightarrow> int" where
  "binary64_num e k = binary64_round e (int k * 2 ^ e)"

section \<open>A concrete corpus\<close>

text \<open>
  One behaviour of the libraries, used to run the indexer on concrete input, with the
  addition of doubles of the section before for \<open>e = 60\<close>: the integer \<open>2 ^ 60\<close> is the
  double \<open>1\<close>, \<open>2 ^ 59\<close> is \<open>1/2\<close> and \<open>2 ^ 6\<close> is \<open>1 / 2 ^ 54\<close>. No weight and no score
  of the corpora below is negative.
  \<open>wordTokenizer\<close> splits at every character outside \<open>[A-Za-z0-9_]\<close> and drops empty
  pieces, as \<open>natural\<close>'s \<open>WordTokenizer\<close> does on ASCII text. \<open>demo_listTerms\<close> lists
  each distinct token of the lower-cased text once, with the stand-in weight \<open>1/2\<close>.
  \<open>demo_matter\<close> gives the parse of the files below; a text without a frontmatter block
  parses to empty data and the whole text as content.
\<close>

definition is_word_char :: "char \<Rightarrow> bool" where
  "is_word_char c =
     (c \<in> set ''ABCDEFGHIJKLMNOPQRSTUVWXYZabcdefghijklmnopqrstuvwxyz0123456789_'')"

fun split_where :: "(char \<Rightarrow> bool) \<Rightarrow> string \<Rightarrow> string list" where
  "split_where sep [] = [[]]"
| "split_where sep (c # s) =
     (case split_where sep s of
        [] \<Rightarrow> (if sep c then [[], []] else [[c]])
      | w # ws \<Rightarrow> (if sep c then [] # w # ws else (c # w) # ws))"

definition wordTokenizer :: "string \<Rightarrow> string list" where
  "wordTokenizer s = filter (\<lambda>w. w \<noteq> []) (split_where (\<lambda>c. \<not> is_word_char c) s)"

definition demo_listTerms :: "string list \<Rightarrow> nat \<Rightarrow> (string \<times> int) list" where
  "demo_listTerms texts i =
     (if i < length texts
      then map (\<lambda>t. (t, 2 ^ 59)) (remdups (wordTokenizer (toLowerCase (texts ! i))))
      else [])"

definition no_frontmatter :: frontmatter where
  "no_frontmatter = \<lparr>fm_title = SUndefined, fm_tags = Undefined, fm_category = SUndefined,
     fm_related = Undefined, fm_summary = SUndefined\<rparr>"

definition text_lines :: "string list \<Rightarrow> string" where
  "text_lines ls = join_with [newline] ls"

definition readme_text :: string where
  "readme_text = ''See [top](readme.md) ok''"

definition auth_text :: string where
  "auth_text = text_lines [''---'', ''title: Auth'', ''tags: [security, api]'', ''---'', ''Login tokens'']"

definition users_text :: string where
  "users_text = text_lines [''---'', ''tags: [api, security, api]'',
     ''related: [api/auth.md, api/users.md]'', ''---'', ''User accounts'']"

definition bad_text :: string where
  "bad_text = text_lines [''---'', ''tags: 5'', ''---'', ''Hello world'']"

definition source_text :: string where
  "source_text = text_lines [''---'', ''tags: [api, api, api]'', ''---'', ''Source page'']"

definition other_text :: string where
  "other_text = text_lines [''---'', ''tags: [api]'', ''---'', ''Other page'']"

definition demo_matter :: "string \<Rightarrow> js_error + GrayMatterFile" where
  "demo_matter text =
     (if text = auth_text then
        Inr \<lparr>fm_data = no_frontmatter\<lparr>fm_title := SStr ''Auth'', fm_tags := Arr [''security'', ''api'']\<rparr>,
             fm_content = ''Login tokens''\<rparr>
      else if text = users_text then
        Inr \<lparr>fm_data = no_frontmatter\<lparr>fm_tags := Arr [''api'', ''security'', ''api''],
                 fm_related := Arr [''api/auth.md'', ''api/users.md'']\<rparr>,
             fm_content = ''User accounts''\<rparr>
      else if text = bad_text then
        Inr \<lparr>fm_data = no_frontmatter\<lparr>fm_tags := Num 5\<rparr>, fm_content = ''Hello world''\<rparr>
      else if text = source_text then
        Inr \<lparr>fm_data = no_frontmatter\<lparr>fm_tags := Arr [''api'', ''api'', ''api'']\<rparr>,
             fm_content = ''Source page''\<rparr>
      else if text = other_text then
        Inr \<lparr>fm_data = no_frontmatter\<lparr>fm_tags := Arr [''api'']\<rparr>, fm_content = ''Other page''\<rparr>
      else Inr \<lparr>fm_data = no_frontmatter, fm_content = text\<rparr>)"

definition demoL :: "int Libraries" where
  "demoL = \<lparr>tokenize = wordTokenizer, listTerms = demo_listTerms, matter = demo_matter,
     js_num = binary64_num 60, js_add = binary64_add 60\<rparr>"

definition demo_fs :: filesystem where
  "demo_fs =
     \<lparr>root_entries = Some [FileEnt ''readme.md'', FileEnt ''notes.txt'',
          DirEnt ''api'' (Some [FileEnt ''auth.md'', FileEnt ''users.md'']),
          DirEnt ''private'' None],
      readFile = (\<lambda>p. if p = ''/docs/readme.md'' then Inr readme_text
                       else if p = ''/docs/api/auth.md'' then Inr auth_text
                       else if p = ''/docs/api/users.md'' then Inr users_text
                       else Inl FsError),
      stat_mtimeMs = (\<lambda>p. Inr 1700000000000)\<rparr>"

definition demo_indexer :: "int DocumentIndexer" where
  "demo_indexer = \<lparr>index = empty_index, docsPath = ''/docs'', cwd = ''/srv''\<rparr>"

definition readme_doc :: Document where
  "readme_doc = \<lparr>path = ''readme.md'', content = ''See [top](readme.md) ok'',
     metadata = \<lparr>title = SStr ''Readme'', tags = Arr [], category = SStr ''general'',
       related = Arr [], summary = SStr ''See [top](readme.md) ok''\<rparr>,
     lastModified = 1700000000000\<rparr>"

definition auth_doc :: Document where
  "auth_doc = \<lparr>path = ''api/auth.md'', content = ''Login tokens'',
     metadata = \<lparr>title = SStr ''Auth'', tags = Arr [''security'', ''api''],
       category = SStr ''api'', related = Arr [], summary = SStr []\<rparr>,
     lastModified = 1700000000000\<rparr>"

definition users_doc :: Document where
  "users_doc = \<lparr>path = ''api/users.md'', content = ''User accounts'',
     metadata = \<lparr>title = SStr ''Users'', tags = Arr [''api'', ''security'', ''api''],
       category = SStr ''api'', related = Arr [''api/auth.md'', ''api/users.md''],
       summary = SStr []\<rparr>,
     lastModified = 1700000000000\<rparr>"

definition demo_built :: "int DocumentIndexer" where
  "demo_built =
     \<lparr>index =
        \<lparr>documents = [(''readme.md'', readme_doc), (''api/auth.md'', auth_doc),
                       (''api/users.md'', users_doc)],
         keywords_index =
           [(''readme'', [''readme.md'']), (''see'', [''readme.md'']), (''top'', [''readme.md'']),
            (''auth'', [''api/auth.md'']), (''login'', [''api/auth.md'']),
            (''tokens'', [''api/auth.md'']), (''users'', [''api/users.md'']),
            (''user'', [''api/users.md'']), (''accounts'', [''api/users.md''])],
         categories = [(''general'', [''readme.md'']), (''api'', [''api/auth.md'', ''api/users.md''])],
         tags_index = [(''security'', [''api/auth.md'', ''api/users.md'']),
                       (''api'', [''api/auth.md'', ''api/users.md''])],
         tfidf =
           [(''readme.md'', [(''see'', 2 ^ 59), (''top'', 2 ^ 59), (''readme'', 2 ^ 59),
                            (''md'', 2 ^ 59), (''ok'', 2 ^ 59)]),
            (''api/auth.md'', [(''auth'', 2 ^ 59), (''login'', 2 ^ 59), (''tokens'', 2 ^ 59)]),
            (''api/users.md'', [(''users'', 2 ^ 59), (''user'', 2 ^ 59), (''accounts'', 2 ^ 59)])],
         relationships = [(''readme.md'', [''readme.md'']), (''api/auth.md'', [''api/users.md'']),
                          (''api/users.md'', [''api/auth.md'', ''api/users.md''])]\<rparr>,
      docsPath = ''/docs'', cwd = ''/srv''\<rparr>"


text \<open>A documents root that cannot be read, and a corpus of one file whose \<open>tags\<close> is a number.\<close>

definition unreadable_fs :: filesystem where
  "unreadable_fs = \<lparr>root_entries = None, readFile = (\<lambda>p. Inl FsError),
     stat_mtimeMs = (\<lambda>p. Inl FsError)\<rparr>"

definition bad_fs :: filesystem where
  "bad_fs = \<lparr>root_entries = Some [FileEnt ''bad.md''],
     readFile = (\<lambda>p. if p = ''/docs/bad.md'' then Inr bad_text else Inl FsError),
     stat_mtimeMs = (\<lambda>p. Inr 1700000000000)\<rparr>"

definition bad_pair_fs :: filesystem where
  "bad_pair_fs = \<lparr>root_entries = Some [FileEnt ''bad.md'', FileEnt ''readme.md''],
     readFile = (\<lambda>p. if p = ''/docs/bad.md'' then Inr bad_text
                      else if p = ''/docs/readme.md'' then Inr readme_text
                      else Inl FsError),
     stat_mtimeMs = (\<lambda>p. Inr 1700000000000)\<rparr>"

text \<open>
  A corpus in which a tag is repeated: \<open>one/s.md\<close> has the tags \<open>api, api, api\<close>, its
  neighbour \<open>two/b.md\<close> in another directory has the tag \<open>api\<close>, and \<open>one/a.md\<close> has none.
\<close>

definition tags_fs :: filesystem where
  "tags_fs =
     \<lparr>root_entries = Some [DirEnt ''one'' (Some [FileEnt ''a.md'', FileEnt ''s.md'']),
                           DirEnt ''two'' (Some [FileEnt ''b.md''])],
      readFile = (\<lambda>p. if p = ''/docs/one/a.md'' then Inr ''Alpha page''
                       else if p = ''/docs/one/s.md'' then Inr source_text
                       else if p = ''/docs/two/b.md'' then Inr other_text
                       else Inl FsError),
      stat_mtimeMs = (\<lambda>p. Inr 1700000000000)\<rparr>"

definition alpha_doc :: Document where
  "alpha_doc = \<lparr>path = ''one/a.md'', content = ''Alpha page'',
     metadata = \<lparr>title = SStr ''A'', tags = Arr [], category = SStr ''one'',
       related = Arr [], summary = SStr []\<rparr>,
     lastModified = 1700000000000\<rparr>"

definition source_doc :: Document where
  "source_doc = \<lparr>path = ''one/s.md'', content = ''Source page'',
     metadata = \<lparr>title = SStr ''S'', tags = Arr [''api'', ''api'', ''api''],
       category = SStr ''one'', related = Arr [], summary = SStr []\<rparr>,
     lastModified = 1700000000000\<rparr>"

definition other_doc :: Document where
  "other_doc = \<lparr>path = ''two/b.md'', content = ''Other page'',
     metadata = \<lparr>title = SStr ''B'', tags = Arr [''api''], category = SStr ''two'',
       related = Arr [], summary = SStr []\<rparr>,
     lastModified = 1700000000000\<rparr>"

definition tags_built :: "int DocumentIndexer" where
  "tags_built =
     \<lparr>index =
        \<lparr>documents = [(''one/a.md'', alpha_doc), (''one/s.md'', source_doc),
                       (''two/b.md'', other_doc)],
         keywords_index =
           [(''alpha'', [''one/a.md'']), (''page'', [''one/a.md'', ''one/s.md'', ''two/b.md'']),
            (''source'', [''one/s.md'']), (''other'', [''two/b.md''])],
         categories = [(''one'', [''one/a.md'', ''one/s.md'']), (''two'', [''two/b.md''])],
         tags_index = [(''api'', [''one/s.md'', ''two/b.md''])],
         tfidf =
           [(''one/a.md'', [(''a'', 2 ^ 59), (''alpha'', 2 ^ 59), (''page'', 2 ^ 59)]),
            (''one/s.md'', [(''s'', 2 ^ 59), (''source'', 2 ^ 59), (''page'', 2 ^ 59)]),
            (''two/b.md'', [(''b'', 2 ^ 59), (''other'', 2 ^ 59), (''page'', 2 ^ 59)])],
         relationships = [(''one/a.md'', [''one/s.md'']),
                          (''one/s.md'', [''one/a.md'', ''two/b.md'']),
                          (''two/b.md'', [])]\<rparr>,
      docsPath = ''/docs'', cwd = ''/srv''\<rparr>"

text \<open>
  A corpus of one document, with a TF-IDF library that gives the term \<open>ok\<close> the weight
  \<open>1/2\<close> and every other term the weight \<open>1 / 2 ^ 54\<close>, which is half of the distance
  from \<open>1/2\<close> to the next double.
\<close>

definition round_listTerms :: "string list \<Rightarrow> nat \<Rightarrow> (string \<times> int) list" where
  "round_listTerms texts i =
     (if i < length texts
      then map (\<lambda>t. (t, if t = ''ok'' then 2 ^ 59 else 2 ^ 6))
               (remdups (wordTokenizer (toLowerCase (texts ! i))))
      else [])"

definition roundL :: "int Libraries" where
  "roundL = demoL\<lparr>listTerms := round_listTerms\<rparr>"

definition round_fs :: filesystem where
  "round_fs = \<lparr>root_entries = Some [FileEnt ''w.md''],
     readFile = (\<lambda>p. if p = ''/docs/w.md'' then Inr ''md js ok'' else Inl FsError),
     stat_mtimeMs = (\<lambda>p. Inr 1700000000000)\<rparr>"

definition w_doc :: Document where
  "w_doc = \<lparr>path = ''w.md'', content = ''md js ok'',
     metadata = \<lparr>title = SStr ''W'', tags = Arr [], category = SStr ''general'',
       related = Arr [], summary = SStr []\<rparr>,
     lastModified = 1700000000000\<rparr>"

definition round_built :: "int DocumentIndexer" where
  "round_built =
     \<lparr>index =
        \<lparr>documents = [(''w.md'', w_doc)],
         keywords_index = [],
         categories = [(''general'', [''w.md''])],
         tags_index = [],
         tfidf = [(''w.md'', [(''w'', 2 ^ 6), (''md'', 2 ^ 6), (''js'', 2 ^ 6), (''ok'', 2 ^ 59)])],
         relationships = [(''w.md'', [])]\<rparr>,
      docsPath = ''/docs'', cwd = ''/srv''\<rparr>"

section \<open>Auxiliary notions for the proofs\<close>

text \<open>
  A value that the variable \<open>score\<close> takes while numbers that are not negative are added
  to it: zero, or a sum of two numbers that are not negative.
\<close>

definition score_value :: "('n::linorder) Libraries \<Rightarrow> 'n \<Rightarrow> bool" where
  "score_value L s =
     (s = js_num L 0
      \<or> (\<exists>x y. js_num L 0 \<le> x \<and> js_num L 0 \<le> y \<and> s = js_add L x y))"

text \<open>What puts a path into the score map of \<open>search\<close>.\<close>

definition tags_required :: "string list option \<Rightarrow> Document \<Rightarrow> bool" where
  "tags_required tgs doc =
     (case tgs of None \<Rightarrow> True | Some ts \<Rightarrow> ts = [] \<or> hasAllTags ts doc = Inr True)"

text \<open>
  The laws of the addition of doubles that the monotonicity of the score rests on. They
  speak of numbers that are not negative, among which no \<open>NaN\<close> arises: rounding is
  monotone, so adding the same number to two ordered numbers keeps their order; adding a
  number to a sum, or to zero, never gives less than that sum; the literals \<open>1\<close>, \<open>3\<close>
  and \<open>5\<close> are not negative.
\<close>

definition rounded_addition :: "('n::linorder) Libraries \<Rightarrow> bool" where
  "rounded_addition L =
     ((\<forall>x y z. js_num L 0 \<le> x \<and> x \<le> y \<and> js_num L 0 \<le> z \<longrightarrow>
                js_add L x z \<le> js_add L y z)
      \<and> (\<forall>x y z. js_num L 0 \<le> x \<and> js_num L 0 \<le> y \<and> js_num L 0 \<le> z \<longrightarrow>
                  js_add L x y \<le> js_add L (js_add L x y) z)
      \<and> (\<forall>z. js_num L 0 \<le> z \<longrightarrow> js_num L 0 \<le> js_add L (js_num L 0) z)
      \<and> js_num L 0 \<le> js_num L 1 \<and> js_num L 0 \<le> js_num L 3 \<and> js_num L 0 \<le> js_num L 5)"

text \<open>No stored TF-IDF weight of the document is negative.\<close>

definition weights_nonneg :: "('n::linorder) Libraries \<Rightarrow> 'n DocumentIndex \<Rightarrow> string \<Rightarrow> bool" where
  "weights_nonneg L ix docPath =
     (case jsmap_get (tfidf ix) docPath of
        None \<Rightarrow> True
      | Some tfidfScores \<Rightarrow> list_all (\<lambda>(trm, w). js_num L 0 \<le> w) tfidfScores)"

text \<open>Path segments: non-empty, not \<open>.\<close>, without a slash.\<close>

definition plain_segment :: "string \<Rightarrow> bool" where
  "plain_segment s = (s \<noteq> [] \<and> s \<noteq> ''.'' \<and> CHR ''/'' \<notin> set s)"

text \<open>A key of the documents map is a relative path.\<close>

definition relative_keys :: "'n DocumentIndexer \<Rightarrow> bool" where
  "relative_keys t =
     list_all (\<lambda>k. \<not> path_isAbsolute k \<and> \<not> prefix ''./'' k) (jsmap_keys (documents (index t)))"

section \<open>Properties\<close>

subsection \<open>Running the concrete corpus\<close>

lemma demo_build: "buildIndex demoL demo_fs demo_indexer = (None, demo_built)"
  by code_simp

lemma tags_build: "buildIndex demoL tags_fs demo_indexer = (None, tags_built)"
  by code_simp

lemma round_build: "buildIndex roundL round_fs demo_indexer = (None, round_built)"
  by code_simp

subsection \<open>buildIndex on an unreadable root\<close>

lemma buildTfIdfIndex_no_documents:
  "documents (index this) = [] \<Longrightarrow> buildTfIdfIndex L this = this"
  by (simp add: buildTfIdfIndex_def)

lemma buildRelationships_no_documents:
  "documents (index this) = [] \<Longrightarrow> buildRelationships this = (None, this)"
  by (simp add: buildRelationships_def)

text \<open>
  C1, as the code has it: when reading the root directory throws, \<open>findMarkdownFiles\<close>
  catches the error and returns no files, and \<open>buildIndex\<close> resolves; the indexer is left
  with the empty snapshot, which has replaced the previous one.
\<close>

theorem buildIndex_unreadable_root:
  assumes "root_entries fs = None"
  shows "buildIndex L fs this = (None, this\<lparr>index := empty_index\<rparr>)"
  using assms
  by (simp add: buildIndex_def Let_def buildTfIdfIndex_no_documents
      buildRelationships_no_documents empty_index_def)

theorem buildIndex_unreadable_root_witness:
  "root_entries unreadable_fs = None
   \<and> buildIndex demoL unreadable_fs demo_built = (None, demo_built\<lparr>index := empty_index\<rparr>)"
proof -
  have h: "root_entries unreadable_fs = None" by (simp add: unreadable_fs_def)
  from h buildIndex_unreadable_root [OF h, of demoL demo_built] show ?thesis by simp
qed

text \<open>
  C1 as stated fails: with the snapshot of the concrete corpus in place and the root
  unreadable, the build does not fail; it resolves and the three documents are gone.
\<close>

theorem buildIndex_unreadable_root_counterexample:
  "buildIndex demoL unreadable_fs demo_built = (None, demo_built\<lparr>index := empty_index\<rparr>)
   \<and> documents (index demo_built) \<noteq> []
   \<and> documents (index (demo_built\<lparr>index := empty_index\<rparr>)) = []"
  by code_simp

subsection \<open>Self-loops\<close>

text \<open>
  C2 at a concrete input: \<open>readme.md\<close> links to itself in its body and
  \<open>api/users.md\<close> names itself in \<open>related\<close>. After the build each is in its own
  relationship set, and \<open>getRelatedDocuments\<close> returns it for itself.
\<close>

theorem self_loop_in_built_snapshot:
  "buildIndex demoL demo_fs demo_indexer = (None, demo_built)
   \<and> jsmap_get (relationships (index demo_built)) ''readme.md'' = Some [''readme.md'']
   \<and> getRelatedDocuments demo_built ''readme.md'' None = Inr [''readme.md'']
   \<and> jsmap_get (relationships (index demo_built)) ''api/users.md''
       = Some [''api/auth.md'', ''api/users.md'']
   \<and> getRelatedDocuments demo_built ''api/users.md'' None
       = Inr [''api/auth.md'', ''api/users.md'']"
  by code_simp

subsection \<open>An error in the middle of indexDocument\<close>

text \<open>
  C3 at a concrete input: the frontmatter \<open>tags: 5\<close> replaces the default \<open>[]\<close> through
  the spread, the loop over the tags throws a \<open>TypeError\<close>, and the \<open>catch\<close> block leaves
  the file in the documents map, the keyword index and the category index.
\<close>

theorem indexDocument_error_leaves_partial_entry:
  "fst (indexDocument_try demoL bad_fs ''/docs/bad.md'' demo_indexer) = Some TypeError
   \<and> jsmap_keys (documents (index (indexDocument demoL bad_fs ''/docs/bad.md'' demo_indexer)))
       = [''bad.md'']
   \<and> keywords_index (index (indexDocument demoL bad_fs ''/docs/bad.md'' demo_indexer))
       = [(''bad'', [''bad.md'']), (''hello'', [''bad.md'']), (''world'', [''bad.md''])]
   \<and> categories (index (indexDocument demoL bad_fs ''/docs/bad.md'' demo_indexer))
       = [(''general'', [''bad.md''])]
   \<and> tags_index (index (indexDocument demoL bad_fs ''/docs/bad.md'' demo_indexer)) = []"
  by code_simp

text \<open>
  An error of reading, \<open>stat\<close> or parsing is raised before anything is registered and
  leaves the indexer as it was. The partial entry of the concrete input above, once a
  second document is in the corpus, makes \<open>buildRelationships\<close> throw, and the build is
  rejected.
\<close>

lemma indexDocument_early_error:
  assumes "readFile fs f = Inl e \<or> stat_mtimeMs fs f = Inl e
           \<or> (\<exists>body. readFile fs f = Inr body \<and> matter L body = Inl e)"
  shows "indexDocument L fs f t = t"
  using assms
  by (auto simp: indexDocument_def indexDocument_try_def split: sum.splits)

lemma partial_entry_rejects_build:
  "fst (buildIndex demoL bad_pair_fs demo_indexer) = Some TypeError
   \<and> jsmap_keys (documents (index (snd (buildIndex demoL bad_pair_fs demo_indexer))))
       = [''bad.md'', ''readme.md'']
   \<and> relationships (index (snd (buildIndex demoL bad_pair_fs demo_indexer))) = []"
  by code_simp

subsection \<open>The filters of search\<close>

lemma jsmap_set_keys: "fst ` set (jsmap_set m k v) = insert k (fst ` set m)"
  by (induction m k v rule: jsmap_set.induct) auto

lemma jsmap_set_distinct: "distinct (map fst m) \<Longrightarrow> distinct (map fst (jsmap_set m k v))"
proof (induction m k v rule: jsmap_set.induct)
  case (1 k v)
  then show ?case by simp
next
  case (2 k' v' m k v)
  have "fst ` set (jsmap_set m k v) = insert k (fst ` set m)" by (rule jsmap_set_keys)
  with 2 show ?case by auto
qed

lemma set_sort_by_score: "set (sort_by_score entries) = set entries"
  by (simp add: sort_by_score_def)

lemma search_loop_sound:
  "search_loop L ix qt cat tgs docs scores = Inr scores' \<Longrightarrow> p \<in> fst ` set scores' \<Longrightarrow>
   p \<in> fst ` set scores
   \<or> (\<exists>d sc. (p, d) \<in> set docs \<and> \<not> category_excluded cat d \<and> tags_required tgs d
         \<and> documentScore L ix qt p d = Inr sc \<and> sc > js_num L 0)"
proof (induction docs arbitrary: scores)
  case Nil
  then show ?case by simp
next
  case (Cons entry rest)
  obtain docPath doc where entry: "entry = (docPath, doc)" by (cases entry)
  show ?case
  proof (cases "category_excluded cat doc")
    case True
    with Cons.prems entry have "search_loop L ix qt cat tgs rest scores = Inr scores'" by simp
    from Cons.IH [OF this Cons.prems(2)] show ?thesis by auto
  next
    case notex: False
    let ?f = "(case tgs of None \<Rightarrow> Inr True
               | Some ts \<Rightarrow> if length ts > 0 then hasAllTags ts doc else Inr True)"
    show ?thesis
    proof (cases ?f)
      case (Inl e)
      with Cons.prems entry notex show ?thesis by simp
    next
      case (Inr b)
      show ?thesis
      proof (cases b)
        case False
        with Cons.prems entry notex Inr
        have "search_loop L ix qt cat tgs rest scores = Inr scores'" by simp
        from Cons.IH [OF this Cons.prems(2)] show ?thesis by auto
      next
        case True
        with Inr have req: "tags_required tgs doc"
          by (auto simp: tags_required_def split: option.splits if_splits)
        show ?thesis
        proof (cases "documentScore L ix qt docPath doc")
          case (Inl e)
          with Cons.prems entry notex Inr True show ?thesis by simp
        next
          case sc: (Inr score)
          let ?scores = "if score > js_num L 0 then jsmap_set scores docPath score else scores"
          from Cons.prems entry notex Inr True sc
          have "search_loop L ix qt cat tgs rest ?scores = Inr scores'" by simp
          from Cons.IH [OF this Cons.prems(2)]
          have "p \<in> fst ` set ?scores
                \<or> (\<exists>d sc. (p, d) \<in> set rest \<and> \<not> category_excluded cat d
                       \<and> tags_required tgs d \<and> documentScore L ix qt p d = Inr sc \<and> sc > js_num L 0)" .
          then show ?thesis
          proof
            assume "p \<in> fst ` set ?scores"
            then have "p \<in> fst ` set scores \<or> (p = docPath \<and> score > js_num L 0)"
              by (auto simp: jsmap_set_keys split: if_splits)
            with entry notex req sc show ?thesis by auto
          next
            assume "\<exists>d sc. (p, d) \<in> set rest \<and> \<not> category_excluded cat d
                       \<and> tags_required tgs d \<and> documentScore L ix qt p d = Inr sc \<and> sc > js_num L 0"
            then show ?thesis by auto
          qed
        qed
      qed
    qed
  qed
qed

lemma search_sound:
  assumes "search L this q cat tgs = Inr ps" and "p \<in> set ps"
  shows "\<exists>d sc. (p, d) \<in> set (documents (index this)) \<and> \<not> category_excluded cat d
           \<and> tags_required tgs d
           \<and> documentScore L (index this) (tokenize L (toLowerCase q)) p d = Inr sc \<and> sc > js_num L 0"
proof -
  from assms(1) obtain scores where
    loop: "search_loop L (index this) (tokenize L (toLowerCase q)) cat tgs
             (documents (index this)) [] = Inr scores"
    and ps: "ps = map fst (sort_by_score scores)"
    by (auto simp: search_def Let_def split: sum.splits)
  from ps assms(2) have "p \<in> fst ` set scores" by (simp add: set_sort_by_score)
  from search_loop_sound [OF loop this] show ?thesis by simp
qed


lemma jsmap_get_distinct:
  "distinct (jsmap_keys m) \<Longrightarrow> (jsmap_get m k = Some v) = ((k, v) \<in> set m)"
  by (simp add: jsmap_keys_def jsmap_get_def)

text \<open>
  C7, as the code has it: for a non-empty category \<open>c\<close>, every path that
  \<open>search(q, c, tags?)\<close> returns is the key of a document whose category is exactly the
  string \<open>c\<close>. (An empty \<open>c\<close> is falsy and switches the filter off.)
\<close>

theorem search_category_filter:
  assumes "distinct (jsmap_keys (documents (index this)))"
    and "c \<noteq> []"
    and "search L this q (Some c) tgs = Inr ps"
    and "p \<in> set ps"
  shows "\<exists>d. getDocument this p = Some d \<and> category (metadata d) = SStr c"
proof -
  from search_sound [OF assms(3,4)] obtain d where
    d: "(p, d) \<in> set (documents (index this))" and ex: "\<not> category_excluded (Some c) d"
    by blast
  from d assms(1) have "getDocument this p = Some d"
    by (simp add: getDocument_def jsmap_get_distinct)
  moreover from ex assms(2) have "category (metadata d) = SStr c"
    by (simp add: category_excluded_def)
  ultimately show ?thesis by blast
qed

theorem search_category_filter_witness:
  "distinct (jsmap_keys (documents (index demo_built))) \<and> ''api'' \<noteq> []
   \<and> search demoL demo_built ''auth readme'' (Some ''api'') None = Inr [''api/auth.md'']
   \<and> ''api/auth.md'' \<in> set [''api/auth.md'']
   \<and> (\<exists>d. getDocument demo_built ''api/auth.md'' = Some d
            \<and> category (metadata d) = SStr ''api'')"
proof -
  have h: "distinct (jsmap_keys (documents (index demo_built)))"
    by (simp add: demo_built_def jsmap_keys_def)
  have n: "''api'' \<noteq> []" by simp
  have r: "search demoL demo_built ''auth readme'' (Some ''api'') None = Inr [''api/auth.md'']"
    by code_simp
  have m: "''api/auth.md'' \<in> set [''api/auth.md'']" by simp
  from h n r m search_category_filter [OF h n r m] show ?thesis by simp
qed

text \<open>
  C7 as stated fails for the empty category: \<open>search\<close> does not filter and returns
  documents of the categories \<open>general\<close> and \<open>api\<close>.
\<close>

theorem search_empty_category_counterexample:
  "search demoL demo_built ''auth readme'' (Some []) None = Inr [''readme.md'', ''api/auth.md'']
   \<and> getDocument demo_built ''api/auth.md'' = Some auth_doc
   \<and> category (metadata auth_doc) = SStr ''api''
   \<and> SStr ''api'' \<noteq> SStr []"
  by code_simp

lemma everyE_True: "everyE f xs = Inr True \<Longrightarrow> x \<in> set xs \<Longrightarrow> f x = Inr True"
  by (induction xs) (auto split: sum.splits if_splits)

lemma documentScore_no_tokens: "documentScore L ix [] docPath doc = Inr (js_num L 0)"
  by (simp add: documentScore_def keyword_points_def tfidf_points_def title_points_def
      split: option.splits)

lemma tag_points_Inr:
  "tag_points L doc qt score = Inr r \<Longrightarrow> qt \<noteq> [] \<Longrightarrow>
   tags (metadata doc) = Undefined \<or> tags (metadata doc) = Null
   \<or> (\<exists>tl. tags (metadata doc) = Arr tl)"
  by (cases qt; cases "tags (metadata doc)") (auto split: sum.splits)

lemma opt_includes_True:
  "opt_includes v x = Inr True \<Longrightarrow>
   v = Undefined \<or> v = Null \<or> (\<exists>tl. v = Arr tl) \<Longrightarrow> \<exists>tl. v = Arr tl \<and> x \<in> set tl"
  by (cases v) auto

text \<open>
  C8: for a non-empty list \<open>S\<close> of required tags, every path that \<open>search(q, cat?, S)\<close>
  returns is the key of a document whose tags are a list that contains every element of
  \<open>S\<close> (compared as strings, case-sensitively).
\<close>

theorem search_required_tags:
  assumes "distinct (jsmap_keys (documents (index this)))"
    and "S \<noteq> []"
    and "search L this q cat (Some S) = Inr ps"
    and "p \<in> set ps"
  shows "\<exists>d tl. getDocument this p = Some d \<and> tags (metadata d) = Arr tl \<and> set S \<subseteq> set tl"
proof -
  let ?qt = "tokenize L (toLowerCase q)"
  from search_sound [OF assms(3,4)] obtain d sc where
    d: "(p, d) \<in> set (documents (index this))"
    and req: "tags_required (Some S) d"
    and sc: "documentScore L (index this) ?qt p d = Inr sc" and pos: "sc > js_num L 0"
    by blast
  from d assms(1) have get: "getDocument this p = Some d"
    by (simp add: getDocument_def jsmap_get_distinct)
  from sc pos have "?qt \<noteq> []"
    using documentScore_no_tokens [of L "index this" p d] by auto
  with sc have shape: "tags (metadata d) = Undefined \<or> tags (metadata d) = Null
                       \<or> (\<exists>tl. tags (metadata d) = Arr tl)"
    by (auto simp: documentScore_def dest: tag_points_Inr)
  from req assms(2) have all: "hasAllTags S d = Inr True"
    by (simp add: tags_required_def)
  from assms(2) obtain s0 where "s0 \<in> set S" by (cases S) auto
  with all have "opt_includes (tags (metadata d)) s0 = Inr True"
    by (auto simp: hasAllTags_def dest: everyE_True)
  from opt_includes_True [OF this shape] obtain tl where tl: "tags (metadata d) = Arr tl"
    by blast
  have "set S \<subseteq> set tl"
  proof
    fix s assume "s \<in> set S"
    with all have "opt_includes (tags (metadata d)) s = Inr True"
      by (auto simp: hasAllTags_def dest: everyE_True)
    with tl show "s \<in> set tl" by simp
  qed
  with get tl show ?thesis by blast
qed

theorem search_required_tags_witness:
  "distinct (jsmap_keys (documents (index demo_built))) \<and> [''api'', ''security''] \<noteq> []
   \<and> search demoL demo_built ''auth users'' None (Some [''api'', ''security''])
       = Inr [''api/auth.md'', ''api/users.md'']
   \<and> ''api/users.md'' \<in> set [''api/auth.md'', ''api/users.md'']
   \<and> (\<exists>d tl. getDocument demo_built ''api/users.md'' = Some d \<and> tags (metadata d) = Arr tl
              \<and> set [''api'', ''security''] \<subseteq> set tl)"
proof -
  have h: "distinct (jsmap_keys (documents (index demo_built)))"
    by (simp add: demo_built_def jsmap_keys_def)
  have n: "[''api'', ''security''] \<noteq> ([] :: string list)" by simp
  have r: "search demoL demo_built ''auth users'' None (Some [''api'', ''security''])
           = Inr [''api/auth.md'', ''api/users.md'']"
    by code_simp
  have m: "''api/users.md'' \<in> set [''api/auth.md'', ''api/users.md'']" by simp
  from h n r m search_required_tags [OF h n r m] show ?thesis by simp
qed


subsection \<open>Maps and sets\<close>

lemma jsset_add_set: "set (jsset_add s x) = insert x (set s)"
  by (auto simp: jsset_add_def)

lemma jsmap_get_set:
  "jsmap_get (jsmap_set m k v) k' = (if k' = k then Some v else jsmap_get m k')"
  by (induction m k v rule: jsmap_set.induct) (auto simp: jsmap_get_def)

lemma jsmap_has_keys: "jsmap_has m k = (k \<in> fst ` set m)"
  by (simp add: jsmap_has_def map_of_eq_None_iff)

lemma jsmap_set_entries: "set (jsmap_set m k v) \<subseteq> insert (k, v) (set m)"
  by (induction m k v rule: jsmap_set.induct) auto

lemma index_add_keys: "fst ` set (index_add m key p) = insert key (fst ` set m)"
proof -
  let ?m' = "if \<not> jsmap_has m key then jsmap_set m key [] else m"
  have k: "fst ` set ?m' = insert key (fst ` set m)"
    by (auto simp: jsmap_set_keys jsmap_has_keys)
  show ?thesis
  proof (cases "jsmap_get ?m' key")
    case None
    with k show ?thesis by (simp add: index_add_def Let_def)
  next
    case (Some ds)
    have "fst ` set (jsmap_set ?m' key (jsset_add ds p)) = insert key (fst ` set ?m')"
      by (rule jsmap_set_keys)
    with k Some show ?thesis by (simp add: index_add_def Let_def)
  qed
qed

subsection \<open>What the steps of a build change\<close>

text \<open>Which parts of the indexer the steps of \<open>indexDocument\<close> change.\<close>

lemma keywords_fold_frame:
  assumes "\<And>x t. \<exists>K. F x t = t\<lparr>index := (index t)\<lparr>keywords_index := K\<rparr>\<rparr>
             \<and> fst ` set K \<subseteq> fst ` set (keywords_index (index t)) \<union> A"
  shows "\<exists>K. fold F xs t = t\<lparr>index := (index t)\<lparr>keywords_index := K\<rparr>\<rparr>
           \<and> fst ` set K \<subseteq> fst ` set (keywords_index (index t)) \<union> A"
proof (induction xs arbitrary: t)
  case Nil
  have "t = t\<lparr>index := (index t)\<lparr>keywords_index := keywords_index (index t)\<rparr>\<rparr>" by simp
  then show ?case by (intro exI [of _ "keywords_index (index t)"]) simp
next
  case (Cons x xs)
  from assms [of x t] obtain K1 where
    K1: "F x t = t\<lparr>index := (index t)\<lparr>keywords_index := K1\<rparr>\<rparr>"
    and sub1: "fst ` set K1 \<subseteq> fst ` set (keywords_index (index t)) \<union> A"
    by blast
  from Cons.IH [of "F x t"] obtain K2 where
    K2: "fold F xs (F x t) = (F x t)\<lparr>index := (index (F x t))\<lparr>keywords_index := K2\<rparr>\<rparr>"
    and sub2: "fst ` set K2 \<subseteq> fst ` set (keywords_index (index (F x t))) \<union> A"
    by blast
  from K2 have "fold F (x # xs) t = t\<lparr>index := (index t)\<lparr>keywords_index := K2\<rparr>\<rparr>"
    by (simp add: K1)
  moreover from sub2 sub1
  have "fst ` set K2 \<subseteq> fst ` set (keywords_index (index t)) \<union> A"
    by (auto simp: K1)
  ultimately show ?case by blast
qed

lemma indexKeywords_frame:
  "\<exists>K. indexKeywords L doc t = t\<lparr>index := (index t)\<lparr>keywords_index := K\<rparr>\<rparr>
      \<and> fst ` set K \<subseteq> fst ` set (keywords_index (index t)) \<union> {tok. length tok > 2}"
  unfolding indexKeywords_def Let_def
proof (rule keywords_fold_frame)
  fix token t
  let ?K = "if length token > 2 then index_add (keywords_index (index t)) token (path doc)
            else keywords_index (index t)"
  have "(if length token > 2
         then t\<lparr>index := (index t)\<lparr>keywords_index :=
                  index_add (keywords_index (index t)) token (path doc)\<rparr>\<rparr>
         else t) = t\<lparr>index := (index t)\<lparr>keywords_index := ?K\<rparr>\<rparr>"
    by simp
  moreover
  have "fst ` set ?K \<subseteq> fst ` set (keywords_index (index t)) \<union> {tok. length tok > 2}"
    by (auto simp: index_add_keys)
  ultimately
  show "\<exists>K. (if length token > 2
              then t\<lparr>index := (index t)\<lparr>keywords_index :=
                       index_add (keywords_index (index t)) token (path doc)\<rparr>\<rparr>
              else t) = t\<lparr>index := (index t)\<lparr>keywords_index := K\<rparr>\<rparr>
            \<and> fst ` set K \<subseteq> fst ` set (keywords_index (index t)) \<union> {tok. length tok > 2}"
    by blast
qed

lemma tags_fold_frame:
  "\<exists>T. fold (\<lambda>tag t. t\<lparr>index := (index t)\<lparr>tags_index :=
                        index_add (tags_index (index t)) tag p\<rparr>\<rparr>) ts t
        = t\<lparr>index := (index t)\<lparr>tags_index := T\<rparr>\<rparr>"
proof (induction ts arbitrary: t)
  case Nil
  have "t = t\<lparr>index := (index t)\<lparr>tags_index := tags_index (index t)\<rparr>\<rparr>" by simp
  then show ?case by (intro exI [of _ "tags_index (index t)"]) simp
next
  case (Cons tag ts)
  let ?t1 = "t\<lparr>index := (index t)\<lparr>tags_index := index_add (tags_index (index t)) tag p\<rparr>\<rparr>"
  from Cons.IH [of ?t1] obtain T where
    "fold (\<lambda>tag t. t\<lparr>index := (index t)\<lparr>tags_index :=
                        index_add (tags_index (index t)) tag p\<rparr>\<rparr>) ts ?t1
     = ?t1\<lparr>index := (index ?t1)\<lparr>tags_index := T\<rparr>\<rparr>"
    by blast
  then have "fold (\<lambda>tag t. t\<lparr>index := (index t)\<lparr>tags_index :=
                        index_add (tags_index (index t)) tag p\<rparr>\<rparr>) (tag # ts) t
     = t\<lparr>index := (index t)\<lparr>tags_index := T\<rparr>\<rparr>"
    by simp
  then show ?case by blast
qed


lemma registerDocument_frame:
  "\<exists>K C T. snd (registerDocument L doc t)
       = t\<lparr>index := (index t)\<lparr>documents := jsmap_set (documents (index t)) (path doc) doc,
                                keywords_index := K, categories := C, tags_index := T\<rparr>\<rparr>
     \<and> fst ` set K \<subseteq> fst ` set (keywords_index (index t)) \<union> {tok. length tok > 2}"
proof -
  define this1 where
    "this1 = t\<lparr>index := (index t)\<lparr>documents :=
               jsmap_set (documents (index t)) (path doc) doc\<rparr>\<rparr>"
  define this2 where "this2 = indexKeywords L doc this1"
  define this3 where "this3 = (case category (metadata doc) of
                     SStr c \<Rightarrow>
                       if c \<noteq> [] then
                         this2\<lparr>index := (index this2)\<lparr>categories :=
                           index_add (categories (index this2)) c (path doc)\<rparr>\<rparr>
                       else this2
                   | _ \<Rightarrow> this2)"
  define final where "final = (if truthy (tags (metadata doc)) then
           (case iterate (tags (metadata doc)) of
              Inl e \<Rightarrow> this3
            | Inr ts \<Rightarrow>
                 fold (\<lambda>tag t. t\<lparr>index := (index t)\<lparr>tags_index :=
                         index_add (tags_index (index t)) tag (path doc)\<rparr>\<rparr>)
                      ts this3)
         else this3)"
  have res: "snd (registerDocument L doc t) = final"
    unfolding registerDocument_def Let_def final_def this3_def this2_def this1_def
    by (simp split: sum.splits)
  from indexKeywords_frame [of L doc this1] obtain K where
    K: "this2 = this1\<lparr>index := (index this1)\<lparr>keywords_index := K\<rparr>\<rparr>"
    and Ksub: "fst ` set K \<subseteq> fst ` set (keywords_index (index this1))
                 \<union> {tok. length tok > 2}"
    unfolding this2_def by blast
  have "\<exists>C. this3 = this2\<lparr>index := (index this2)\<lparr>categories := C\<rparr>\<rparr>"
  proof (cases "\<exists>c. category (metadata doc) = SStr c \<and> c \<noteq> []")
    case True
    then show ?thesis by (auto simp: this3_def)
  next
    case False
    then have "this3 = this2" by (auto simp: this3_def split: jsstr.splits)
    moreover have "this2 = this2\<lparr>index := (index this2)\<lparr>categories :=
                     categories (index this2)\<rparr>\<rparr>" by simp
    ultimately show ?thesis by metis
  qed
  then obtain C where C: "this3 = this2\<lparr>index := (index this2)\<lparr>categories := C\<rparr>\<rparr>"
    by blast
  have "\<exists>T. final = this3\<lparr>index := (index this3)\<lparr>tags_index := T\<rparr>\<rparr>"
  proof (cases "truthy (tags (metadata doc)) \<and> (\<exists>ts. iterate (tags (metadata doc)) = Inr ts)")
    case True
    then obtain ts where "iterate (tags (metadata doc)) = Inr ts" by blast
    with True tags_fold_frame [of "path doc" ts this3] show ?thesis
      by (simp add: final_def)
  next
    case False
    then have "final = this3" by (auto simp: final_def split: sum.splits)
    moreover have "this3 = this3\<lparr>index := (index this3)\<lparr>tags_index :=
                     tags_index (index this3)\<rparr>\<rparr>" by simp
    ultimately show ?thesis by metis
  qed
  then obtain T where T: "final = this3\<lparr>index := (index this3)\<lparr>tags_index := T\<rparr>\<rparr>"
    by blast
  have "final = t\<lparr>index := (index t)\<lparr>documents :=
                    jsmap_set (documents (index t)) (path doc) doc,
                  keywords_index := K, categories := C, tags_index := T\<rparr>\<rparr>"
    by (simp add: T C K this1_def)
  moreover from Ksub
  have "fst ` set K \<subseteq> fst ` set (keywords_index (index t)) \<union> {tok. length tok > 2}"
    by (simp add: this1_def)
  ultimately show ?thesis using res by metis
qed

lemma indexDocument_frame:
  "\<exists>D K C T. indexDocument L fs f t
       = t\<lparr>index := (index t)\<lparr>documents := D, keywords_index := K, categories := C,
                                tags_index := T\<rparr>\<rparr>
     \<and> (distinct (map fst (documents (index t))) \<longrightarrow> distinct (map fst D))
     \<and> fst ` set K \<subseteq> fst ` set (keywords_index (index t)) \<union> {tok. length tok > 2}"
proof -
  have unchanged: "?thesis" if "indexDocument L fs f t = t"
  proof -
    have "t = t\<lparr>index := (index t)\<lparr>documents := documents (index t),
                keywords_index := keywords_index (index t),
                categories := categories (index t), tags_index := tags_index (index t)\<rparr>\<rparr>"
      by simp
    with that show ?thesis
      by (intro exI [of _ "documents (index t)"] exI [of _ "keywords_index (index t)"]
          exI [of _ "categories (index t)"] exI [of _ "tags_index (index t)"]) simp
  qed
  show ?thesis
  proof (cases "\<exists>doc. indexDocument L fs f t = snd (registerDocument L doc t)")
    case True
    then obtain doc where d: "indexDocument L fs f t = snd (registerDocument L doc t)"
      by blast
    from registerDocument_frame [of L doc t] obtain K C T where
      "snd (registerDocument L doc t)
       = t\<lparr>index := (index t)\<lparr>documents := jsmap_set (documents (index t)) (path doc) doc,
                                keywords_index := K, categories := C, tags_index := T\<rparr>\<rparr>"
      and "fst ` set K \<subseteq> fst ` set (keywords_index (index t)) \<union> {tok. length tok > 2}"
      by blast
    moreover have "distinct (map fst (documents (index t))) \<longrightarrow>
                   distinct (map fst (jsmap_set (documents (index t)) (path doc) doc))"
      by (simp add: jsmap_set_distinct)
    ultimately show ?thesis using d by metis
  next
    case False
    then have "indexDocument L fs f t = t"
      by (auto simp: indexDocument_def indexDocument_try_def split: sum.splits)
    then show ?thesis by (rule unchanged)
  qed
qed


lemma indexDocuments_frame:
  "\<exists>D K C T. fold (indexDocument L fs) files t
       = t\<lparr>index := (index t)\<lparr>documents := D, keywords_index := K, categories := C,
                                tags_index := T\<rparr>\<rparr>
     \<and> (distinct (map fst (documents (index t))) \<longrightarrow> distinct (map fst D))
     \<and> fst ` set K \<subseteq> fst ` set (keywords_index (index t)) \<union> {tok. length tok > 2}"
proof (induction files arbitrary: t)
  case Nil
  have "t = t\<lparr>index := (index t)\<lparr>documents := documents (index t),
              keywords_index := keywords_index (index t),
              categories := categories (index t), tags_index := tags_index (index t)\<rparr>\<rparr>"
    by simp
  then show ?case
    by (intro exI [of _ "documents (index t)"] exI [of _ "keywords_index (index t)"]
        exI [of _ "categories (index t)"] exI [of _ "tags_index (index t)"]) simp
next
  case (Cons f files)
  let ?t1 = "indexDocument L fs f t"
  from indexDocument_frame [of L fs f t] obtain D1 K1 C1 T1 where
    t1: "?t1 = t\<lparr>index := (index t)\<lparr>documents := D1, keywords_index := K1,
                                      categories := C1, tags_index := T1\<rparr>\<rparr>"
    and d1: "distinct (map fst (documents (index t))) \<longrightarrow> distinct (map fst D1)"
    and k1: "fst ` set K1 \<subseteq> fst ` set (keywords_index (index t)) \<union> {tok. length tok > 2}"
    by blast
  from Cons.IH [of ?t1] obtain D K C T where
    t2: "fold (indexDocument L fs) files ?t1
         = ?t1\<lparr>index := (index ?t1)\<lparr>documents := D, keywords_index := K,
                                        categories := C, tags_index := T\<rparr>\<rparr>"
    and d2: "distinct (map fst (documents (index ?t1))) \<longrightarrow> distinct (map fst D)"
    and k2: "fst ` set K \<subseteq> fst ` set (keywords_index (index ?t1)) \<union> {tok. length tok > 2}"
    by blast
  have i1: "documents (index ?t1) = D1" and i2: "keywords_index (index ?t1) = K1"
    by (simp_all add: t1)
  have "fold (indexDocument L fs) (f # files) t
        = t\<lparr>index := (index t)\<lparr>documents := D, keywords_index := K, categories := C,
                                 tags_index := T\<rparr>\<rparr>"
    using t2 by (simp add: t1)
  moreover from d1 d2 have "distinct (map fst (documents (index t))) \<longrightarrow> distinct (map fst D)"
    by (simp add: i1)
  moreover from k1 k2
  have "fst ` set K \<subseteq> fst ` set (keywords_index (index t)) \<union> {tok. length tok > 2}"
    unfolding i2 by blast
  ultimately show ?case by blast
qed

text \<open>The TF-IDF step sets only the \<open>tfidf\<close> map, to term lists of the library.\<close>

lemma term_scores_keys:
  "fst ` set (fold (\<lambda>(trm, w) scores. jsmap_set scores trm w) items scores0)
   = fst ` set scores0 \<union> fst ` set items"
proof (induction items arbitrary: scores0)
  case Nil
  then show ?case by simp
next
  case (Cons item items)
  obtain trm w where "item = (trm, w)" by (cases item)
  with Cons.IH [of "jsmap_set scores0 trm w"] show ?case
    by (auto simp: jsmap_set_keys)
qed

lemma termScores_keys: "set (jsmap_keys (termScores items)) = fst ` set items"
  by (simp add: termScores_def jsmap_keys_def term_scores_keys)

lemma jsmap_set_fresh: "k \<notin> fst ` set m \<Longrightarrow> jsmap_set m k v = m @ [(k, v)]"
  by (induction m k v rule: jsmap_set.induct) auto

lemma tfidf_fold_exact:
  "distinct (map fst pairs) \<Longrightarrow> fst ` set (tfidf (index t)) \<inter> fst ` set pairs = {} \<Longrightarrow>
   fold (\<lambda>(docPath, docIndex) t.
           t\<lparr>index := (index t)\<lparr>tfidf :=
               jsmap_set (tfidf (index t)) docPath (mk docIndex)\<rparr>\<rparr>) pairs t
   = t\<lparr>index := (index t)\<lparr>tfidf :=
         tfidf (index t) @ map (\<lambda>(docPath, docIndex). (docPath, mk docIndex)) pairs\<rparr>\<rparr>"
proof (induction pairs arbitrary: t)
  case Nil
  then show ?case by simp
next
  case (Cons pair pairs)
  obtain docPath docIndex where pair: "pair = (docPath, docIndex)" by (cases pair)
  let ?t1 = "t\<lparr>index := (index t)\<lparr>tfidf :=
                 tfidf (index t) @ [(docPath, mk docIndex)]\<rparr>\<rparr>"
  from Cons.prems(2) pair have fresh: "docPath \<notin> fst ` set (tfidf (index t))"
    by auto
  from Cons.prems(1) pair have d: "distinct (map fst pairs)"
    and notin: "docPath \<notin> fst ` set pairs"
    by auto
  from Cons.prems(2) notin
  have disj: "fst ` set (tfidf (index ?t1)) \<inter> fst ` set pairs = {}"
    by auto
  have step: "t\<lparr>index := (index t)\<lparr>tfidf :=
                 jsmap_set (tfidf (index t)) docPath (mk docIndex)\<rparr>\<rparr> = ?t1"
    using fresh by (simp add: jsmap_set_fresh)
  from Cons.IH [OF d disj] step show ?case
    by (simp add: pair)
qed

lemma buildTfIdfIndex_exact:
  assumes "distinct (map fst (documents (index t)))" and "tfidf (index t) = []"
  shows "buildTfIdfIndex L t
         = t\<lparr>index := (index t)\<lparr>tfidf :=
               map (\<lambda>(docPath, docIndex).
                      (docPath,
                       termScores (listTerms L (corpusTexts (documents (index t))) docIndex)))
                   (zip (map fst (documents (index t)))
                        [0..<length (documents (index t))])\<rparr>\<rparr>"
proof -
  let ?pairs = "zip (map fst (documents (index t))) [0..<length (documents (index t))]"
  have keys: "map fst ?pairs = map fst (documents (index t))"
    by (simp add: map_fst_zip)
  with assms(1) have d: "distinct (map fst ?pairs)" by simp
  from assms(2) have disj: "fst ` set (tfidf (index t)) \<inter> fst ` set ?pairs = {}"
    by simp
  from tfidf_fold_exact [OF d disj] assms(2) show ?thesis
    by (simp add: buildTfIdfIndex_def Let_def)
qed

lemma buildTfIdfIndex_frame:
  "\<exists>TF. buildTfIdfIndex L t = t\<lparr>index := (index t)\<lparr>tfidf := TF\<rparr>\<rparr>"
proof -
  have "\<exists>TF. fold (\<lambda>(docPath, docIndex) t.
               t\<lparr>index := (index t)\<lparr>tfidf :=
                   jsmap_set (tfidf (index t)) docPath (mk docIndex)\<rparr>\<rparr>) pairs t
         = t\<lparr>index := (index t)\<lparr>tfidf := TF\<rparr>\<rparr>" for pairs mk
  proof (induction pairs arbitrary: t)
    case Nil
    have "t = t\<lparr>index := (index t)\<lparr>tfidf := tfidf (index t)\<rparr>\<rparr>" by simp
    then show ?case by (rule_tac x = "tfidf (index t)" in exI) simp
  next
    case (Cons pair pairs)
    obtain docPath docIndex where pair: "pair = (docPath, docIndex)" by (cases pair)
    let ?t1 = "t\<lparr>index := (index t)\<lparr>tfidf :=
                   jsmap_set (tfidf (index t)) docPath (mk docIndex)\<rparr>\<rparr>"
    from Cons.IH [of ?t1] obtain TF where
      "fold (\<lambda>(docPath, docIndex) t.
               t\<lparr>index := (index t)\<lparr>tfidf :=
                   jsmap_set (tfidf (index t)) docPath (mk docIndex)\<rparr>\<rparr>) pairs ?t1
         = ?t1\<lparr>index := (index ?t1)\<lparr>tfidf := TF\<rparr>\<rparr>"
      by blast
    then show ?case by (rule_tac x = TF in exI) (simp add: pair)
  qed
  then show ?thesis by (simp add: buildTfIdfIndex_def Let_def)
qed

lemma buildRelationships_frame:
  "\<exists>R. snd (buildRelationships t) = t\<lparr>index := (index t)\<lparr>relationships := R\<rparr>\<rparr>"
  by (cases "relationships_loop t (documents (index t)) (relationships (index t))")
     (auto simp: buildRelationships_def)


text \<open>The shape of the indexer after \<open>buildIndex\<close>, whether it resolved or not.\<close>

lemma buildIndex_frame:
  "\<exists>this2 R.
     snd (buildIndex L fs this) = this2\<lparr>index := (index this2)\<lparr>relationships := R\<rparr>\<rparr>
     \<and> fst (buildIndex L fs this) = fst (buildRelationships this2)
     \<and> R = relationships (index (snd (buildRelationships this2)))
     \<and> distinct (map fst (documents (index this2)))
     \<and> (\<forall>token \<in> fst ` set (keywords_index (index this2)). length token > 2)
     \<and> tfidf (index this2)
         = map (\<lambda>(docPath, docIndex).
                  (docPath,
                   termScores (listTerms L (corpusTexts (documents (index this2))) docIndex)))
               (zip (map fst (documents (index this2)))
                    [0..<length (documents (index this2))])"
proof -
  define ta where "ta = this\<lparr>index := empty_index\<rparr>"
  define files where "files = findMarkdownFiles (docsPath ta) (root_entries fs)"
  define tb where "tb = fold (indexDocument L fs) files ta"
  define tc where "tc = buildTfIdfIndex L tb"
  have b: "buildIndex L fs this = buildRelationships tc"
    by (simp add: buildIndex_def Let_def tc_def tb_def files_def ta_def)
  have ta_index: "index ta = empty_index"
    by (simp add: ta_def)
  from indexDocuments_frame [of L fs files ta] obtain D K C T where
    t1: "tb = ta\<lparr>index := (index ta)\<lparr>documents := D, keywords_index := K,
                                                categories := C, tags_index := T\<rparr>\<rparr>"
    and d: "distinct (map fst (documents (index ta))) \<longrightarrow> distinct (map fst D)"
    and k: "fst ` set K \<subseteq> fst ` set (keywords_index (index ta)) \<union> {tok. length tok > 2}"
    unfolding tb_def by blast
  have docs1: "documents (index tb) = D"
    by (simp add: t1)
  have kw1: "keywords_index (index tb) = K"
    by (simp add: t1)
  have tf1: "tfidf (index tb) = []"
    by (simp add: t1 ta_index empty_index_def)
  from d have dD: "distinct (map fst D)" by (simp add: ta_index empty_index_def)
  from k have kK: "\<forall>token \<in> fst ` set K. length token > 2"
    by (auto simp: ta_index empty_index_def)
  define TF where
    "TF = map (\<lambda>(docPath, docIndex).
                 (docPath, termScores (listTerms L (corpusTexts D) docIndex)))
              (zip (map fst D) [0..<length D])"
  from dD have "distinct (map fst (documents (index tb)))"
    by (simp add: docs1)
  from buildTfIdfIndex_exact [OF this tf1, of L]
  have t2: "tc = tb\<lparr>index := (index tb)\<lparr>tfidf := TF\<rparr>\<rparr>"
    by (simp add: tc_def TF_def docs1)
  have docs2: "documents (index tc) = D"
    using docs1 by (simp add: t2)
  have kw2: "keywords_index (index tc) = K"
    using kw1 by (simp add: t2)
  have tf2: "tfidf (index tc) = TF"
    by (simp add: t2)
  from buildRelationships_frame [of tc] obtain R where
    R: "snd (buildRelationships tc) = tc\<lparr>index := (index tc)\<lparr>relationships := R\<rparr>\<rparr>"
    by blast
  then have R': "R = relationships (index (snd (buildRelationships tc)))" by simp
  have "snd (buildIndex L fs this) = tc\<lparr>index := (index tc)\<lparr>relationships := R\<rparr>\<rparr>"
    using R by (simp add: b)
  moreover have "fst (buildIndex L fs this) = fst (buildRelationships tc)"
    by (simp add: b)
  moreover from dD have "distinct (map fst (documents (index tc)))"
    by (simp add: docs2)
  moreover from kK have "\<forall>token \<in> fst ` set (keywords_index (index tc)). length token > 2"
    by (simp add: kw2)
  moreover
  have "tfidf (index tc)
         = map (\<lambda>(docPath, docIndex).
                  (docPath,
                   termScores (listTerms L (corpusTexts (documents (index tc))) docIndex)))
               (zip (map fst (documents (index tc)))
                    [0..<length (documents (index tc))])"
    by (simp add: tf2 docs2 TF_def)
  ultimately show ?thesis using R' by blast
qed

subsection \<open>Lengths of indexed tokens\<close>

text \<open>
  C5, as the code has it: after a build, every token registered in the keyword index is
  longer than 2 characters. The \<open>tfidf\<close> map has the keys of the documents map, in the
  same order, and the map stored for the \<open>i\<close>-th document is \<open>termScores\<close> of what the
  TF-IDF library lists for the \<open>i\<close>-th text of the corpus: its terms are exactly the
  listed terms, and the indexer applies no length filter to them.
\<close>

theorem indexed_token_lengths:
  assumes "buildIndex L fs this = (err, this')"
  shows "(\<forall>token \<in> set (jsmap_keys (keywords_index (index this'))). length token > 2)
         \<and> jsmap_keys (tfidf (index this')) = jsmap_keys (documents (index this'))
         \<and> (\<forall>i < length (documents (index this')).
               jsmap_get (tfidf (index this')) (jsmap_keys (documents (index this')) ! i)
                 = Some (termScores (listTerms L (corpusTexts (documents (index this'))) i))
               \<and> set (jsmap_keys (termScores
                                    (listTerms L (corpusTexts (documents (index this'))) i)))
                   = fst ` set (listTerms L (corpusTexts (documents (index this'))) i))"
proof -
  from buildIndex_frame [of L fs this] assms obtain this2 R where
    t': "this' = this2\<lparr>index := (index this2)\<lparr>relationships := R\<rparr>\<rparr>"
    and dist: "distinct (map fst (documents (index this2)))"
    and kw: "\<forall>token \<in> fst ` set (keywords_index (index this2)). length token > 2"
    and tf: "tfidf (index this2)
         = map (\<lambda>(docPath, docIndex).
                  (docPath,
                   termScores (listTerms L (corpusTexts (documents (index this2))) docIndex)))
               (zip (map fst (documents (index this2)))
                    [0..<length (documents (index this2))])"
    by auto
  define docs where "docs = documents (index this2)"
  define f where "f = (\<lambda>i. termScores (listTerms L (corpusTexts docs) i))"
  have docs': "documents (index this') = docs" by (simp add: t' docs_def)
  have "tfidf (index this') = map (\<lambda>(docPath, docIndex). (docPath, f docIndex))
                                   (zip (map fst docs) [0..<length docs])"
    using tf by (simp add: t' docs_def f_def)
  then have tf': "tfidf (index this') = zip (map fst docs) (map f [0..<length docs])"
    by (simp add: zip_map2)
  have "\<forall>token \<in> set (jsmap_keys (keywords_index (index this'))). length token > 2"
    using kw by (simp add: t' jsmap_keys_def)
  moreover have "jsmap_keys (tfidf (index this')) = jsmap_keys (documents (index this'))"
    by (simp add: tf' docs' jsmap_keys_def)
  moreover have "jsmap_get (tfidf (index this')) (jsmap_keys (documents (index this')) ! i)
                 = Some (termScores (listTerms L (corpusTexts (documents (index this'))) i))"
    if "i < length (documents (index this'))" for i
  proof -
    from that have i: "i < length docs" by (simp add: docs')
    have "map_of (zip (map fst docs) (map f [0..<length docs])) (map fst docs ! i)
          = Some (map f [0..<length docs] ! i)"
      using dist i by (intro map_of_zip_nth) (simp_all add: docs_def)
    with i show ?thesis by (simp add: tf' docs' jsmap_get_def jsmap_keys_def f_def)
  qed
  ultimately show ?thesis by (simp add: termScores_keys)
qed

theorem indexed_token_lengths_witness:
  "buildIndex demoL demo_fs demo_indexer = (None, demo_built)
   \<and> ''readme'' \<in> set (jsmap_keys (keywords_index (index demo_built)))
   \<and> length ''readme'' > 2
   \<and> jsmap_keys (tfidf (index demo_built)) = [''readme.md'', ''api/auth.md'', ''api/users.md'']
   \<and> 1 < length (documents (index demo_built))
   \<and> jsmap_keys (documents (index demo_built)) ! 1 = ''api/auth.md''
   \<and> jsmap_get (tfidf (index demo_built)) ''api/auth.md''
       = Some (termScores (listTerms demoL (corpusTexts (documents (index demo_built))) 1))
   \<and> listTerms demoL (corpusTexts (documents (index demo_built))) 1
       = [(''auth'', 2 ^ 59), (''login'', 2 ^ 59), (''tokens'', 2 ^ 59)]"
proof -
  have m: "''readme'' \<in> set (jsmap_keys (keywords_index (index demo_built)))"
    by (simp add: demo_built_def jsmap_keys_def)
  have n: "1 < length (documents (index demo_built))"
    by (simp add: demo_built_def)
  have k: "jsmap_keys (documents (index demo_built)) ! 1 = ''api/auth.md''"
    by (simp add: demo_built_def jsmap_keys_def)
  have d: "jsmap_keys (documents (index demo_built))
           = [''readme.md'', ''api/auth.md'', ''api/users.md'']"
    by (simp add: demo_built_def jsmap_keys_def)
  have l: "listTerms demoL (corpusTexts (documents (index demo_built))) 1
           = [(''auth'', 2 ^ 59), (''login'', 2 ^ 59), (''tokens'', 2 ^ 59)]"
    by code_simp
  from indexed_token_lengths [OF demo_build]
  have ks: "jsmap_keys (tfidf (index demo_built)) = jsmap_keys (documents (index demo_built))"
    and each: "\<forall>i < length (documents (index demo_built)).
               jsmap_get (tfidf (index demo_built)) (jsmap_keys (documents (index demo_built)) ! i)
                 = Some (termScores (listTerms demoL (corpusTexts (documents (index demo_built))) i))"
    by blast+
  from each n
  have "jsmap_get (tfidf (index demo_built)) (jsmap_keys (documents (index demo_built)) ! 1)
        = Some (termScores (listTerms demoL (corpusTexts (documents (index demo_built))) 1))"
    by blast
  then have g: "jsmap_get (tfidf (index demo_built)) ''api/auth.md''
        = Some (termScores (listTerms demoL (corpusTexts (documents (index demo_built))) 1))"
    by (simp only: k)
  from ks d have ks': "jsmap_keys (tfidf (index demo_built))
                       = [''readme.md'', ''api/auth.md'', ''api/users.md'']"
    by simp
  have r: "length ''readme'' > 2" by simp
  from demo_build m r ks' n k g l show ?thesis by blast
qed

text \<open>
  C5 as stated fails for the \<open>tfidf\<close> map: with a library that lists every token, the
  terms \<open>md\<close> and \<open>ok\<close> of \<open>readme.md\<close> are stored although they have two characters.
\<close>

theorem tfidf_short_term_counterexample:
  "buildIndex demoL demo_fs demo_indexer = (None, demo_built)
   \<and> jsmap_get (tfidf (index demo_built)) ''readme.md''
       = Some [(''see'', 2 ^ 59), (''top'', 2 ^ 59), (''readme'', 2 ^ 59), (''md'', 2 ^ 59),
               (''ok'', 2 ^ 59)]
   \<and> length ''md'' = 2 \<and> length ''ok'' = 2"
  by code_simp

subsection \<open>The score of a related document\<close>

lemma filterE_total: "filterE (\<lambda>x. Inr (P x)) xs = Inr (filter P xs)"
  by (induction xs) simp_all

lemma count_list_filter:
  "count_list (filter P xs) x = (if P x then count_list xs x else 0)"
  by (induction xs) simp_all

lemma count_list_distinct: "distinct xs \<Longrightarrow> x \<in> set xs \<Longrightarrow> count_list xs x = 1"
  by (induction xs) auto

lemma length_filter_member:
  "length (filter (\<lambda>t. t \<in> set rs) ts) = (\<Sum>t \<in> set ts \<inter> set rs. count_list ts t)"
proof -
  let ?fs = "filter (\<lambda>t. t \<in> set rs) ts"
  have "set ?fs \<subseteq> set ts \<inter> set rs" by auto
  then have "sum (count_list ?fs) (set ts \<inter> set rs) = length ?fs"
    by (rule sum_count_set) simp
  moreover have "sum (count_list ?fs) (set ts \<inter> set rs)
                 = (\<Sum>t \<in> set ts \<inter> set rs. count_list ts t)"
    by (rule sum.cong) (simp_all add: count_list_filter)
  ultimately show ?thesis by simp
qed

lemma relatedScore_arrays:
  assumes "tags (metadata d) = Arr ts"
    and "tags (metadata rd) = Arr rs"
    and "related (metadata d) = Arr es"
  shows "relatedScore (Some d) (Some rd) relPath
           = Inr (1 + (if category (metadata d) = category (metadata rd) then 2 else 0)
                    + (\<Sum>t \<in> set ts \<inter> set rs. count_list ts t)
                    + (if relPath \<in> set es then 5 else 0))"
proof -
  have "opt_includes (Arr rs) = (\<lambda>t. Inr (t \<in> set rs))"
    by (rule ext) simp
  then have f: "filterE (opt_includes (Arr rs)) ts = Inr (filter (\<lambda>t. t \<in> set rs) ts)"
    by (simp add: filterE_total)
  have e: "opt_includes (related (metadata d)) relPath = Inr (relPath \<in> set es)"
    using assms(3) by simp
  show ?thesis
    using assms(1,2) f e by (simp add: relatedScore_def length_filter_member)
qed

lemma related_loop_scores:
  "related_loop ix doc rel scores0 = Inr scores \<Longrightarrow>
   (\<forall>p \<in> set rel. \<exists>sc. relatedScore doc (jsmap_get (documents ix) p) p = Inr sc
                        \<and> jsmap_get scores p = Some sc)
   \<and> (\<forall>p. p \<notin> set rel \<longrightarrow> jsmap_get scores p = jsmap_get scores0 p)"
proof (induction rel arbitrary: scores0)
  case Nil
  then show ?case by simp
next
  case (Cons relPath rest)
  from Cons.prems obtain sc where
    sc: "relatedScore doc (jsmap_get (documents ix) relPath) relPath = Inr sc"
    and loop: "related_loop ix doc rest (jsmap_set scores0 relPath sc) = Inr scores"
    by (auto split: sum.splits)
  from Cons.IH [OF loop]
  have ih1: "\<forall>p \<in> set rest. \<exists>sc. relatedScore doc (jsmap_get (documents ix) p) p = Inr sc
                                  \<and> jsmap_get scores p = Some sc"
    and ih2: "\<forall>p. p \<notin> set rest \<longrightarrow>
                jsmap_get scores p = jsmap_get (jsmap_set scores0 relPath sc) p"
    by blast+
  have "\<exists>sc. relatedScore doc (jsmap_get (documents ix) relPath) relPath = Inr sc
             \<and> jsmap_get scores relPath = Some sc"
  proof (cases "relPath \<in> set rest")
    case True
    with ih1 show ?thesis by blast
  next
    case False
    with ih2 have "jsmap_get scores relPath = Some sc" by (simp add: jsmap_get_set)
    with sc show ?thesis by blast
  qed
  with ih1 have "\<forall>p \<in> set (relPath # rest).
                   \<exists>sc. relatedScore doc (jsmap_get (documents ix) p) p = Inr sc
                        \<and> jsmap_get scores p = Some sc"
    by simp
  moreover from ih2
  have "\<forall>p. p \<notin> set (relPath # rest) \<longrightarrow> jsmap_get scores p = jsmap_get scores0 p"
    by (auto simp: jsmap_get_set)
  ultimately show ?case by blast
qed

text \<open>
  C4, as the code has it: \<open>getRelatedDocuments\<close> returns the neighbours of the source
  sorted by the scores that its loop computes, cut to the limit. With tag lists \<open>ts\<close>
  (source) and \<open>rs\<close> (neighbour), the tag component of the neighbour's score is the
  number of entries of \<open>ts\<close>, repeated entries counted each time, that occur in \<open>rs\<close>;
  the score is 1, plus 2 for equal categories, plus that count, plus a boost for an
  explicit relationship, which is 0 or 5. The boost is 5 when the source's \<open>related\<close>
  list has the neighbour's path as it is stored, and 0 when no entry of the list is that
  path, as written or normalised; of an entry that is the neighbour's path only after
  normalisation nothing is said. The count is the size of the intersection of the two
  tag sets when \<open>ts\<close> has no repeated entry.
\<close>

theorem getRelatedDocuments_counts_repeated_tags:
  assumes "jsmap_get (relationships (index this)) docPath = Some rel"
    and "rel \<noteq> []"
    and "getDocument this docPath = Some d"
    and "tags (metadata d) = Arr ts"
    and "related (metadata d) = Arr es"
    and "getRelatedDocuments this docPath limit = Inr result"
  shows "\<exists>scores.
           related_loop (index this) (Some d) rel [] = Inr scores
           \<and> result = map fst (slice0 (sort_by_score scores)
                                       (case limit of None \<Rightarrow> 10 | Some n \<Rightarrow> n))
           \<and> (\<forall>relPath rd rs.
                 relPath \<in> set rel \<and> getDocument this relPath = Some rd
                 \<and> tags (metadata rd) = Arr rs \<longrightarrow>
                 (\<exists>boost.
                    jsmap_get scores relPath
                      = Some (1 + (if category (metadata d) = category (metadata rd)
                                   then 2 else 0)
                                + (\<Sum>t \<in> set ts \<inter> set rs. count_list ts t)
                                + boost)
                    \<and> (boost = 0 \<or> boost = 5)
                    \<and> (relPath \<in> set es \<longrightarrow> boost = 5)
                    \<and> (relPath \<notin> set es \<and> relPath \<notin> normalizePath this ` set es \<longrightarrow>
                         boost = 0)
                    \<and> (distinct ts \<longrightarrow>
                         (\<Sum>t \<in> set ts \<inter> set rs. count_list ts t)
                           = card (set ts \<inter> set rs))))"
proof -
  from assms(3) have doc: "jsmap_get (documents (index this)) docPath = Some d"
    by (simp add: getDocument_def)
  from assms(1,2,6) doc obtain scores where
    loop: "related_loop (index this) (Some d) rel [] = Inr scores"
    and res: "result = map fst (slice0 (sort_by_score scores)
                                        (case limit of None \<Rightarrow> 10 | Some n \<Rightarrow> n))"
    by (auto simp: getRelatedDocuments_def split: sum.splits)
  have "\<exists>boost.
          jsmap_get scores relPath
            = Some (1 + (if category (metadata d) = category (metadata rd) then 2 else 0)
                      + (\<Sum>t \<in> set ts \<inter> set rs. count_list ts t)
                      + boost)
          \<and> (boost = 0 \<or> boost = 5)
          \<and> (relPath \<in> set es \<longrightarrow> boost = 5)
          \<and> (relPath \<notin> set es \<and> relPath \<notin> normalizePath this ` set es \<longrightarrow> boost = 0)
          \<and> (distinct ts \<longrightarrow>
               (\<Sum>t \<in> set ts \<inter> set rs. count_list ts t) = card (set ts \<inter> set rs))"
    if mem: "relPath \<in> set rel" and rd: "getDocument this relPath = Some rd"
      and rs: "tags (metadata rd) = Arr rs" for relPath rd rs
  proof -
    from related_loop_scores [OF loop] mem obtain sc where
      sc: "relatedScore (Some d) (jsmap_get (documents (index this)) relPath) relPath = Inr sc"
      and get: "jsmap_get scores relPath = Some sc"
      by blast
    from rd have "jsmap_get (documents (index this)) relPath = Some rd"
      by (simp add: getDocument_def)
    with sc relatedScore_arrays [OF assms(4) rs assms(5), of relPath]
    have "sc = 1 + (if category (metadata d) = category (metadata rd) then 2 else 0)
                 + (\<Sum>t \<in> set ts \<inter> set rs. count_list ts t)
                 + (if relPath \<in> set es then 5 else 0)"
      by simp
    moreover have "distinct ts \<longrightarrow>
               (\<Sum>t \<in> set ts \<inter> set rs. count_list ts t) = card (set ts \<inter> set rs)"
    proof
      assume "distinct ts"
      then have "(\<Sum>t \<in> set ts \<inter> set rs. count_list ts t) = (\<Sum>t \<in> set ts \<inter> set rs. 1)"
        by (intro sum.cong) (simp_all add: count_list_distinct)
      then show "(\<Sum>t \<in> set ts \<inter> set rs. count_list ts t) = card (set ts \<inter> set rs)"
        by simp
    qed
    ultimately show ?thesis
      using get by (rule_tac x = "if relPath \<in> set es then 5 else 0" in exI) simp
  qed
  with loop res show ?thesis by blast
qed

theorem getRelatedDocuments_counts_repeated_tags_witness:
  "jsmap_get (relationships (index demo_built)) ''api/users.md''
     = Some [''api/auth.md'', ''api/users.md'']
   \<and> getDocument demo_built ''api/users.md'' = Some users_doc
   \<and> tags (metadata users_doc) = Arr [''api'', ''security'', ''api'']
   \<and> related (metadata users_doc) = Arr [''api/auth.md'', ''api/users.md'']
   \<and> getRelatedDocuments demo_built ''api/users.md'' None
       = Inr [''api/auth.md'', ''api/users.md'']
   \<and> getDocument demo_built ''api/auth.md'' = Some auth_doc
   \<and> tags (metadata auth_doc) = Arr [''security'', ''api'']
   \<and> category (metadata users_doc) = category (metadata auth_doc)
   \<and> ''api/auth.md'' \<in> set [''api/auth.md'', ''api/users.md'']
   \<and> (\<exists>scores. related_loop (index demo_built) (Some users_doc)
                    [''api/auth.md'', ''api/users.md''] [] = Inr scores
                \<and> jsmap_get scores ''api/auth.md'' = Some (1 + 2 + 3 + 5))
   \<and> jsmap_get (relationships (index demo_built)) ''api/auth.md'' = Some [''api/users.md'']
   \<and> related (metadata auth_doc) = Arr []
   \<and> getRelatedDocuments demo_built ''api/auth.md'' None = Inr [''api/users.md'']
   \<and> distinct [''security'', ''api'']
   \<and> card (set [''security'', ''api''] \<inter> set [''api'', ''security'', ''api'']) = 2
   \<and> (\<exists>scores. related_loop (index demo_built) (Some auth_doc) [''api/users.md''] []
                  = Inr scores
                \<and> jsmap_get scores ''api/users.md'' = Some (1 + 2 + 2 + 0))"
proof -
  have r: "jsmap_get (relationships (index demo_built)) ''api/users.md''
           = Some [''api/auth.md'', ''api/users.md'']"
    by code_simp
  have n: "[''api/auth.md'', ''api/users.md''] \<noteq> []" by simp
  have u: "getDocument demo_built ''api/users.md'' = Some users_doc"
    by code_simp
  have a: "tags (metadata users_doc) = Arr [''api'', ''security'', ''api'']"
    by (simp add: users_doc_def)
  have c: "related (metadata users_doc) = Arr [''api/auth.md'', ''api/users.md'']"
    by (simp add: users_doc_def)
  have g: "getRelatedDocuments demo_built ''api/users.md'' None
           = Inr [''api/auth.md'', ''api/users.md'']"
    by code_simp
  have v: "getDocument demo_built ''api/auth.md'' = Some auth_doc"
    by code_simp
  have b: "tags (metadata auth_doc) = Arr [''security'', ''api'']"
    by (simp add: auth_doc_def)
  have k: "category (metadata users_doc) = category (metadata auth_doc)"
    by (simp add: users_doc_def auth_doc_def)
  have m: "''api/auth.md'' \<in> set [''api/auth.md'', ''api/users.md'']" by simp
  have s: "set [''api'', ''security'', ''api''] \<inter> set [''security'', ''api'']
           = {''api'', ''security''}"
    by auto
  from getRelatedDocuments_counts_repeated_tags [OF r n u a c g] obtain scores where
    loop: "related_loop (index demo_built) (Some users_doc)
             [''api/auth.md'', ''api/users.md''] [] = Inr scores"
    and each: "\<forall>relPath rd rs.
                 relPath \<in> set [''api/auth.md'', ''api/users.md'']
                 \<and> getDocument demo_built relPath = Some rd
                 \<and> tags (metadata rd) = Arr rs \<longrightarrow>
                 (\<exists>boost.
                    jsmap_get scores relPath
                      = Some (1 + (if category (metadata users_doc) = category (metadata rd)
                                   then 2 else 0)
                                + (\<Sum>t \<in> set [''api'', ''security'', ''api''] \<inter> set rs.
                                     count_list [''api'', ''security'', ''api''] t)
                                + boost)
                    \<and> (relPath \<in> set [''api/auth.md'', ''api/users.md''] \<longrightarrow> boost = 5))"
    by blast
  from each m v b obtain boost where
    "jsmap_get scores ''api/auth.md''
       = Some (1 + (if category (metadata users_doc) = category (metadata auth_doc)
                    then 2 else 0)
                 + (\<Sum>t \<in> set [''api'', ''security'', ''api''] \<inter> set [''security'', ''api''].
                      count_list [''api'', ''security'', ''api''] t)
                 + boost)"
    and "boost = 5"
    by blast
  with k s have "jsmap_get scores ''api/auth.md'' = Some (1 + 2 + 3 + 5)" by simp
  with loop have first: "\<exists>scores. related_loop (index demo_built) (Some users_doc)
                    [''api/auth.md'', ''api/users.md''] [] = Inr scores
                \<and> jsmap_get scores ''api/auth.md'' = Some (1 + 2 + 3 + 5)"
    by blast
  have r2: "jsmap_get (relationships (index demo_built)) ''api/auth.md''
            = Some [''api/users.md'']"
    by code_simp
  have n2: "[''api/users.md''] \<noteq> []" by simp
  have c2: "related (metadata auth_doc) = Arr []"
    by (simp add: auth_doc_def)
  have g2: "getRelatedDocuments demo_built ''api/auth.md'' None = Inr [''api/users.md'']"
    by code_simp
  have d2: "distinct [''security'', ''api'']" by simp
  have s2: "set [''security'', ''api''] \<inter> set [''api'', ''security'', ''api'']
            = {''api'', ''security''}"
    by auto
  then have card2: "card (set [''security'', ''api''] \<inter> set [''api'', ''security'', ''api'']) = 2"
    by simp
  from getRelatedDocuments_counts_repeated_tags [OF r2 n2 v b c2 g2] obtain scores2 where
    loop2: "related_loop (index demo_built) (Some auth_doc) [''api/users.md''] []
            = Inr scores2"
    and each2: "\<forall>relPath rd rs.
                 relPath \<in> set [''api/users.md'']
                 \<and> getDocument demo_built relPath = Some rd
                 \<and> tags (metadata rd) = Arr rs \<longrightarrow>
                 (\<exists>boost.
                    jsmap_get scores2 relPath
                      = Some (1 + (if category (metadata auth_doc) = category (metadata rd)
                                   then 2 else 0)
                                + (\<Sum>t \<in> set [''security'', ''api''] \<inter> set rs.
                                     count_list [''security'', ''api''] t)
                                + boost)
                    \<and> (relPath \<notin> set []
                        \<and> relPath \<notin> normalizePath demo_built ` set [] \<longrightarrow> boost = 0)
                    \<and> (distinct [''security'', ''api''] \<longrightarrow>
                         (\<Sum>t \<in> set [''security'', ''api''] \<inter> set rs.
                            count_list [''security'', ''api''] t)
                           = card (set [''security'', ''api''] \<inter> set rs)))"
    by blast
  have m2: "''api/users.md'' \<in> set [''api/users.md'']" by simp
  from each2 m2 u a obtain boost2 where
    get2: "jsmap_get scores2 ''api/users.md''
       = Some (1 + (if category (metadata auth_doc) = category (metadata users_doc)
                    then 2 else 0)
                 + (\<Sum>t \<in> set [''security'', ''api''] \<inter> set [''api'', ''security'', ''api''].
                      count_list [''security'', ''api''] t)
                 + boost2)"
    and z: "''api/users.md'' \<notin> set []
            \<and> ''api/users.md'' \<notin> normalizePath demo_built ` set [] \<longrightarrow> boost2 = 0"
    and e: "distinct [''security'', ''api''] \<longrightarrow>
            (\<Sum>t \<in> set [''security'', ''api''] \<inter> set [''api'', ''security'', ''api''].
               count_list [''security'', ''api''] t)
            = card (set [''security'', ''api''] \<inter> set [''api'', ''security'', ''api''])"
    by blast
  from z have "boost2 = 0" by simp
  moreover from e d2 card2
  have "(\<Sum>t \<in> set [''security'', ''api''] \<inter> set [''api'', ''security'', ''api''].
           count_list [''security'', ''api''] t) = 2"
    by simp
  ultimately have "jsmap_get scores2 ''api/users.md'' = Some (1 + 2 + 2 + 0)"
    using get2 k by simp
  with loop2 have second: "\<exists>scores. related_loop (index demo_built) (Some auth_doc)
                    [''api/users.md''] [] = Inr scores
                \<and> jsmap_get scores ''api/users.md'' = Some (1 + 2 + 2 + 0)"
    by blast
  from r u a c g v b k m first r2 c2 g2 d2 card2 second show ?thesis by blast
qed

text \<open>
  C4 as stated fails: \<open>one/s.md\<close> has the tags \<open>api, api, api\<close> and \<open>two/b.md\<close> has
  \<open>api\<close>; the intersection has one element, the code adds three, so that \<open>two/b.md\<close>
  scores 4 and comes before \<open>one/a.md\<close>, which shares the category and scores 3. With
  the size of the intersection \<open>two/b.md\<close> would score 2 and come second.
\<close>

theorem getRelatedDocuments_intersection_counterexample:
  "buildIndex demoL tags_fs demo_indexer = (None, tags_built)
   \<and> getDocument tags_built ''one/s.md'' = Some source_doc
   \<and> getDocument tags_built ''one/a.md'' = Some alpha_doc
   \<and> getDocument tags_built ''two/b.md'' = Some other_doc
   \<and> jsmap_get (relationships (index tags_built)) ''one/s.md''
       = Some [''one/a.md'', ''two/b.md'']
   \<and> related_loop (index tags_built) (Some source_doc) [''one/a.md'', ''two/b.md''] []
       = Inr [(''one/a.md'', 3), (''two/b.md'', 4)]
   \<and> getRelatedDocuments tags_built ''one/s.md'' None = Inr [''two/b.md'', ''one/a.md'']
   \<and> tags (metadata source_doc) = Arr [''api'', ''api'', ''api'']
   \<and> tags (metadata other_doc) = Arr [''api'']
   \<and> category (metadata source_doc) \<noteq> category (metadata other_doc)
   \<and> related (metadata source_doc) = Arr []
   \<and> 1 + 0 + card (set [''api'', ''api'', ''api''] \<inter> set [''api'']) + 0 = (2::nat)
   \<and> tags (metadata alpha_doc) = Arr []
   \<and> category (metadata source_doc) = category (metadata alpha_doc)
   \<and> 1 + 2 + card (set [''api'', ''api'', ''api''] \<inter> set ([]::string list)) + 0 = (3::nat)"
  by code_simp

subsection \<open>The addition of doubles is monotone\<close>

text \<open>
  Rounding to the nearest multiple, ties to even, is monotone and leaves a multiple
  unchanged; hence rounding to 53 bits is monotone and leaves its results unchanged, and
  the addition of doubles that are not negative has the laws of \<open>rounded_addition\<close>,
  for every \<open>e\<close> and so for all doubles that are not negative.
\<close>

lemma round_even_mono:
  assumes "s \<le> t"
  shows "round_even k s \<le> round_even k t"
proof -
  define P :: int where "P = 2 ^ k"
  have P: "0 < P" by (simp add: P_def)
  define c where "c = (\<lambda>u. if P < 2 * (u mod P) \<or> (2 * (u mod P) = P \<and> odd (u div P))
                            then (1::int) else 0)"
  have re: "round_even k u = (u div P + c u) * P" for u
    by (simp add: round_even_def Let_def P_def c_def)
  have c01: "0 \<le> c u \<and> c u \<le> 1" for u by (simp add: c_def)
  have q: "s div P \<le> t div P" using assms P by (simp add: zdiv_mono1)
  show ?thesis
  proof (cases "s div P = t div P")
    case True
    have "s = P * (s div P) + s mod P" "t = P * (t div P) + t mod P" by simp_all
    with assms True have "s mod P \<le> t mod P" by (metis add_le_cancel_left)
    then have "c s \<le> c t" using True by (auto simp: c_def)
    then show ?thesis using True P by (simp add: re)
  next
    case False
    then have "s div P + 1 \<le> t div P" using q by simp
    then have "s div P + c s \<le> t div P + c t" using c01[of s] c01[of t] by linarith
    then show ?thesis using P unfolding re by (simp add: mult_right_mono)
  qed
qed

lemma round_even_multiple: "round_even k (m * 2 ^ k) = m * 2 ^ k"
  by (simp add: round_even_def Let_def)

lemma round_even_zero: "round_even 0 s = s"
  by (simp add: round_even_def Let_def)

lemma round_even_nonneg: "0 \<le> s \<Longrightarrow> 0 \<le> round_even k s"
  using round_even_mono[of 0 s k] round_even_multiple[where m = 0 and k = k] by simp

lemma bitlen_mono: "s \<le> t \<Longrightarrow> bitlen s \<le> bitlen t"
proof (cases "0 < t")
  case True
  assume "s \<le> t"
  with bitlen_bounds[OF True] have "s < 2 ^ nat (bitlen t)" by simp
  then show ?thesis by (simp add: bitlen_le_iff_power bitlen_nonneg)
next
  case False
  assume "s \<le> t"
  with False have "s \<le> 0" by simp
  then have "bitlen s = 0" by (simp add: bitlen_eq_zero_iff)
  then show ?thesis by (simp add: bitlen_nonneg)
qed

lemma bitlen_gt_iff:
  assumes "0 \<le> w"
  shows "(w < bitlen m) = (2 ^ nat w \<le> m)"
proof -
  have "(w < bitlen m) = (w + 1 \<le> bitlen m)" by auto
  also have "\<dots> = (2 ^ nat w \<le> m)"
    using assms bitlen_ge_iff_power[of "w + 1" m] by (simp add: nat_add_distrib)
  finally show ?thesis .
qed

lemma binary64_infinity_pos: "0 < binary64_infinity e"
  by (simp add: binary64_infinity_def)

lemma cap_iff: "(int (1024 + e) < bitlen m) = (binary64_infinity e \<le> m)"
proof -
  have "(int (1024 + e) < bitlen m) = (2 ^ nat (int (1024 + e)) \<le> m)"
    by (rule bitlen_gt_iff) simp
  then show ?thesis by (simp only: nat_int binary64_infinity_def)
qed

lemma significand_mono:
  assumes "0 \<le> s" and "s \<le> t"
  shows "round_even (nat (bitlen s - 53)) s \<le> round_even (nat (bitlen t - 53)) t"
proof (cases "s = 0")
  case True
  have "round_even (nat (bitlen s - 53)) s = 0"
    using round_even_multiple[where m = 0] by (simp add: True)
  moreover have "0 \<le> t" using assms by simp
  ultimately show ?thesis by (simp add: round_even_nonneg)
next
  case False
  with assms have s: "0 < s" and t: "0 < t" by simp_all
  define ks where "ks = nat (bitlen s - 53)"
  define kt where "kt = nat (bitlen t - 53)"
  have b: "bitlen s \<le> bitlen t" using assms(2) by (rule bitlen_mono)
  then have k: "ks \<le> kt" by (simp add: ks_def kt_def)
  show ?thesis
  proof (cases "ks = kt")
    case True
    then show ?thesis using round_even_mono[OF assms(2), of kt] by (simp add: ks_def kt_def)
  next
    case False
    with k have lt: "ks < kt" by simp
    then have bt: "53 < bitlen t" and bs: "bitlen s < bitlen t"
      by (simp_all add: ks_def kt_def)
    have "ks \<le> nat (bitlen s)" by (simp add: ks_def)
    then have "(2::int) ^ nat (bitlen s) = 2 ^ (nat (bitlen s) - ks) * 2 ^ ks"
      by (simp add: power_add[symmetric])
    then have "round_even ks (2 ^ nat (bitlen s)) = 2 ^ nat (bitlen s)"
      using round_even_multiple[of ks "2 ^ (nat (bitlen s) - ks)"] by simp
    moreover have "s \<le> 2 ^ nat (bitlen s)" using bitlen_bounds[OF s] by simp
    ultimately have up: "round_even ks s \<le> 2 ^ nat (bitlen s)"
      using round_even_mono[of s "2 ^ nat (bitlen s)" ks] by simp
    have "nat (bitlen t - 1) = 52 + kt" using bt by (simp add: kt_def)
    then have "(2::int) ^ nat (bitlen t - 1) = 2 ^ 52 * 2 ^ kt"
      by (simp add: power_add)
    then have "round_even kt (2 ^ nat (bitlen t - 1)) = 2 ^ nat (bitlen t - 1)"
      using round_even_multiple[of kt "2 ^ 52"] by simp
    moreover have "2 ^ nat (bitlen t - 1) \<le> t" using bitlen_bounds[OF t] by simp
    ultimately have lo: "2 ^ nat (bitlen t - 1) \<le> round_even kt t"
      using round_even_mono[of "2 ^ nat (bitlen t - 1)" t kt] by simp
    have "nat (bitlen s) \<le> nat (bitlen t - 1)" using bs by simp
    then have "(2::int) ^ nat (bitlen s) \<le> 2 ^ nat (bitlen t - 1)"
      by (simp add: power_increasing)
    with up lo have "round_even ks s \<le> round_even kt t" by linarith
    then show ?thesis by (simp add: ks_def kt_def)
  qed
qed

lemma binary64_round_mono:
  assumes "0 \<le> s" and "s \<le> t"
  shows "binary64_round e s \<le> binary64_round e t"
  using significand_mono[OF assms] unfolding binary64_round_def Let_def cap_iff by auto

lemma binary64_round_nonneg: "0 \<le> s \<Longrightarrow> 0 \<le> binary64_round e s"
  using binary64_infinity_pos[of e] by (simp add: binary64_round_def Let_def round_even_nonneg)

lemma bitlen_eq_iff:
  assumes "0 < w"
  shows "(bitlen m = w) = (2 ^ nat (w - 1) \<le> m \<and> m < 2 ^ nat w)"
proof -
  have "(bitlen m = w) = (w - 1 < bitlen m \<and> bitlen m \<le> w)" by auto
  then show ?thesis using assms by (simp add: bitlen_gt_iff bitlen_le_iff_power)
qed

lemma significand_fixed:
  assumes "0 \<le> s"
  defines "m \<equiv> round_even (nat (bitlen s - 53)) s"
  shows "round_even (nat (bitlen m - 53)) m = m"
proof (cases "bitlen s \<le> 53")
  case True
  then have "m = s" by (simp add: m_def round_even_zero)
  with True show ?thesis by (simp add: round_even_zero)
next
  case False
  define k where "k = nat (bitlen s - 53)"
  define q where "q = s div 2 ^ k"
  from False have b: "bitlen s = 53 + int k" by (simp add: k_def)
  then have s: "0 < s" using bitlen_eq_zero_iff[of s] by simp
  have lo: "2 ^ 52 * 2 ^ k \<le> s" and hi: "s < 2 ^ 53 * 2 ^ k"
    using bitlen_bounds[OF s] b by (simp_all add: nat_add_distrib power_add)
  have q_lo: "2 ^ 52 \<le> q"
    using zdiv_mono1[OF lo, of "2 ^ k"] by (simp add: q_def)
  have "s = q * 2 ^ k + s mod 2 ^ k" by (simp only: q_def div_mult_mod_eq)
  moreover have "0 \<le> s mod 2 ^ k" by simp
  ultimately have "q * 2 ^ k < 2 ^ 53 * 2 ^ k" using hi by linarith
  then have q_hi: "q < 2 ^ 53" by (simp only: mult_less_cancel_right) simp
  obtain q' where m: "m = q' * 2 ^ k" and q': "q' = q \<or> q' = q + 1"
    by (simp add: m_def round_even_def Let_def k_def[symmetric] q_def[symmetric])
  show ?thesis
  proof (cases "q' < 2 ^ 53")
    case True
    with q' q_lo have "bitlen q' = 53" by (auto simp: bitlen_eq_iff)
    moreover have "0 < q'" using q' q_lo by auto
    ultimately have "bitlen m = 53 + int k" by (simp add: m bitlen_pow2)
    then have e: "nat (bitlen m - 53) = k" by simp
    show ?thesis unfolding e unfolding m by (rule round_even_multiple)
  next
    case False
    with q' q_hi have "q' = 2 ^ 53" by auto
    then have m2: "m = 2 ^ 52 * 2 ^ (k + 1)" by (simp add: m)
    have "bitlen ((2::int) ^ 52) = 53" by (simp add: bitlen_eq_iff)
    then have "bitlen m = 53 + int (k + 1)" unfolding m2 by (subst bitlen_pow2) simp_all
    then have e: "nat (bitlen m - 53) = k + 1" by simp
    show ?thesis unfolding e unfolding m2 by (rule round_even_multiple)
  qed
qed

lemma binary64_round_infinity:
  "binary64_round e (binary64_infinity e) = binary64_infinity e"
proof -
  have "1024 + e = 52 + (972 + e)" by simp
  then have inf: "binary64_infinity e = 2 ^ 52 * 2 ^ (972 + e)"
    by (simp only: binary64_infinity_def power_add)
  have "bitlen ((2::int) ^ 52) = 53" by (simp add: bitlen_eq_iff)
  then have b: "bitlen (binary64_infinity e) = 53 + int (972 + e)"
    unfolding inf by (subst bitlen_pow2) simp_all
  then have k: "nat (bitlen (binary64_infinity e) - 53) = 972 + e" by simp
  have "round_even (972 + e) (binary64_infinity e) = binary64_infinity e"
    unfolding inf by (rule round_even_multiple)
  then have r: "round_even (nat (bitlen (binary64_infinity e) - 53)) (binary64_infinity e)
                = binary64_infinity e"
    by (simp only: k)
  show ?thesis unfolding binary64_round_def Let_def r by simp
qed

lemma binary64_round_fixed:
  assumes "0 \<le> s"
  shows "binary64_round e (binary64_round e s) = binary64_round e s"
proof (cases "int (1024 + e) < bitlen (round_even (nat (bitlen s - 53)) s)")
  case True
  then have "binary64_round e s = binary64_infinity e"
    by (simp add: binary64_round_def Let_def)
  then show ?thesis by (simp add: binary64_round_infinity)
next
  case False
  then have "binary64_round e s = round_even (nat (bitlen s - 53)) s"
    by (simp add: binary64_round_def Let_def)
  with False significand_fixed[OF assms] show ?thesis
    by (simp add: binary64_round_def Let_def)
qed

lemma binary64_num_zero: "binary64_num e 0 = 0"
  by (simp add: binary64_num_def binary64_round_def Let_def round_even_zero)

lemma binary64_laws:
  assumes "js_num L = binary64_num e" and "js_add L = binary64_add e"
  shows "rounded_addition L"
proof -
  have add: "binary64_add e x y = binary64_round e (x + y)" for x y
    by (simp add: binary64_add_def)
  have a: "binary64_add e x z \<le> binary64_add e y z" if "0 \<le> x" "x \<le> y" "0 \<le> z" for x y z
    using that binary64_round_mono[of "x + z" "y + z" e] by (simp add: add)
  have b: "binary64_add e x y \<le> binary64_add e (binary64_add e x y) z"
    if "0 \<le> x" "0 \<le> y" "0 \<le> z" for x y z
  proof -
    have n: "0 \<le> binary64_round e (x + y)" using that by (simp add: binary64_round_nonneg)
    have "binary64_round e (binary64_round e (x + y))
          \<le> binary64_round e (binary64_round e (x + y) + z)"
      using n that by (intro binary64_round_mono) simp_all
    then show ?thesis using that n by (simp add: add binary64_round_fixed)
  qed
  have c: "0 \<le> binary64_add e 0 z" if "0 \<le> z" for z
    using that by (simp add: add binary64_round_nonneg)
  have d: "0 \<le> binary64_num e k" for k
    by (simp add: binary64_num_def binary64_round_nonneg)
  show ?thesis
    using a b c d by (simp add: rounded_addition_def assms binary64_num_zero)
qed

lemma demoL_laws: "rounded_addition demoL"
  by (rule binary64_laws[of demoL 60]) (simp_all add: demoL_def)

subsection \<open>The score of search\<close>

lemma score_value_nonneg:
  assumes "rounded_addition L" and "score_value L s"
  shows "js_num L 0 \<le> s"
  using assms(2) unfolding score_value_def
proof (elim disjE exE conjE)
  assume "s = js_num L 0"
  then show ?thesis by simp
next
  fix x y
  assume x: "js_num L 0 \<le> x" and y: "js_num L 0 \<le> y" and s: "s = js_add L x y"
  from assms(1) y have "js_num L 0 \<le> js_add L (js_num L 0) y"
    by (simp add: rounded_addition_def)
  also from assms(1) x y have "\<dots> \<le> js_add L x y"
    by (simp add: rounded_addition_def)
  finally show ?thesis by (simp add: s)
qed

lemma add_value:
  assumes "rounded_addition L" and "score_value L s" and "js_num L 0 \<le> w"
  shows "score_value L (js_add L s w)" and "s \<le> js_add L s w"
proof -
  from assms(1,2) have n: "js_num L 0 \<le> s" by (rule score_value_nonneg)
  with assms(3) show "score_value L (js_add L s w)"
    unfolding score_value_def by blast
  from assms(2) show "s \<le> js_add L s w"
    unfolding score_value_def
  proof (elim disjE exE conjE)
    assume "s = js_num L 0"
    with assms(1,3) show ?thesis by (simp add: rounded_addition_def)
  next
    fix x y
    assume "js_num L 0 \<le> x" "js_num L 0 \<le> y" "s = js_add L x y"
    with assms(1,3) show ?thesis by (simp add: rounded_addition_def)
  qed
qed

lemma add_mono:
  assumes "rounded_addition L" and "score_value L x" and "x \<le> y" and "js_num L 0 \<le> w"
  shows "js_add L x w \<le> js_add L y w"
proof -
  from assms(1,2) have "js_num L 0 \<le> x" by (rule score_value_nonneg)
  with assms(1,3,4) show ?thesis by (simp add: rounded_addition_def)
qed

lemma fold_value:
  assumes "\<And>t s. Q s \<Longrightarrow> Q (step t s)" and "\<And>t s. Q s \<Longrightarrow> s \<le> step t s"
  shows "Q s \<Longrightarrow> Q (fold step ts s) \<and> (s::'n::linorder) \<le> fold step ts s"
proof (induction ts arbitrary: s)
  case Nil
  then show ?case by simp
next
  case (Cons t ts)
  from Cons.prems have q: "Q (step t s)" and l: "s \<le> step t s" by (simp_all add: assms)
  from Cons.IH[OF q] l show ?case by auto
qed

lemma fold_subseq_mono:
  assumes inv: "\<And>t s. Q s \<Longrightarrow> Q (step t s)"
    and infl: "\<And>t s. Q s \<Longrightarrow> s \<le> step t s"
    and mono: "\<And>t x y. Q x \<Longrightarrow> Q y \<Longrightarrow> x \<le> y \<Longrightarrow> step t x \<le> step t y"
  shows "subseq ts2 ts1 \<Longrightarrow> Q s2 \<Longrightarrow> Q s1 \<Longrightarrow> s2 \<le> s1 \<Longrightarrow>
         fold step ts2 s2 \<le> (fold step ts1 s1 :: 'n::linorder)"
proof (induction ts2 ts1 arbitrary: s1 s2 rule: list_emb.induct)
  case (list_emb_Nil ys)
  have "s1 \<le> fold step ys s1"
    using fold_value[where Q = Q and step = step and s = s1 and ts = ys] inv infl
      list_emb_Nil.prems(2) by blast
  with list_emb_Nil.prems(3) show ?case by simp
next
  case (list_emb_Cons xs ys y)
  from list_emb_Cons.prems have "Q (step y s1)" by (simp add: inv)
  moreover from list_emb_Cons.prems infl[of s1 y] have "s2 \<le> step y s1" by simp
  ultimately have "Q (step y s1)" and "s2 \<le> step y s1" .
  with list_emb_Cons.IH[of s2 "step y s1"] list_emb_Cons.prems show ?case by simp
next
  case (list_emb_Cons2 x y xs ys)
  from list_emb_Cons2.prems have "Q (step x s2)" "Q (step x s1)" "step x s2 \<le> step x s1"
    using inv mono by simp_all
  with list_emb_Cons2.IH[of "step x s2" "step x s1"] list_emb_Cons2.hyps show ?case by simp
qed

lemma loop_subseq_mono:
  assumes L: "rounded_addition L"
    and w: "\<And>t. c t \<Longrightarrow> js_num L 0 \<le> w t"
    and sub: "subseq ts2 ts1"
    and v: "score_value L s2" "score_value L s1"
    and le: "s2 \<le> s1"
  shows "fold (\<lambda>t s. if c t then js_add L s (w t) else s) ts2 s2
         \<le> fold (\<lambda>t s. if c t then js_add L s (w t) else s) ts1 s1"
    and "score_value L (fold (\<lambda>t s. if c t then js_add L s (w t) else s) ts2 s2)"
    and "score_value L (fold (\<lambda>t s. if c t then js_add L s (w t) else s) ts1 s1)"
proof -
  let ?step = "\<lambda>t s. if c t then js_add L s (w t) else s"
  have inv: "score_value L (?step t s)" if "score_value L s" for t s
    using that add_value(1)[OF L that] w by simp
  have infl: "s \<le> ?step t s" if "score_value L s" for t s
    using that add_value(2)[OF L that] w by simp
  have mono: "?step t x \<le> ?step t y" if "score_value L x" "score_value L y" "x \<le> y" for t x y
    using that add_mono[OF L that(1) that(3)] w by simp
  show "fold ?step ts2 s2 \<le> fold ?step ts1 s1"
    using inv infl mono sub v le by (rule fold_subseq_mono[where Q = "score_value L"])
  show "score_value L (fold ?step ts2 s2)"
    using fold_value[where Q = "score_value L" and step = ?step and s = s2 and ts = ts2]
      inv infl v(1) by blast
  show "score_value L (fold ?step ts1 s1)"
    using fold_value[where Q = "score_value L" and step = ?step and s = s1 and ts = ts1]
      inv infl v(2) by blast
qed

lemma tag_points_fold:
  "tag_points L doc ts s = Inr r \<Longrightarrow>
   r = fold (\<lambda>t s. if opt_some (tags (metadata doc)) (\<lambda>tag. str_includes (toLowerCase tag) t)
                       = Inr True
                    then js_add L s (js_num L 3) else s) ts s"
proof (induction ts arbitrary: s)
  case Nil
  then show ?case by simp
next
  case (Cons t ts)
  then show ?case by (cases "opt_some (tags (metadata doc)) (\<lambda>tag. str_includes (toLowerCase tag) t)") auto
qed

lemma stored_weight_nonneg:
  assumes "weights_nonneg L ix docPath"
    and "jsmap_get (tfidf ix) docPath = Some tfidfScores"
  shows "js_num L 0 \<le> (case jsmap_get tfidfScores token of None \<Rightarrow> js_num L 0 | Some w \<Rightarrow> w)"
proof (cases "jsmap_get tfidfScores token")
  case None
  then show ?thesis by simp
next
  case (Some w)
  then have "(token, w) \<in> set tfidfScores" by (auto simp: jsmap_get_def dest: map_of_SomeD)
  with assms have "js_num L 0 \<le> w"
    by (auto simp: weights_nonneg_def list_all_iff)
  with Some show ?thesis by simp
qed

text \<open>
  C9, as the code has it: the four loops add to the score once for every occurrence of a
  token, in the order of the token list, with the addition of doubles. If the token list
  of \<open>q2\<close> is a subsequence of the token list of \<open>q1\<close> (the tokens of \<open>q1\<close> are those of
  \<open>q2\<close> in the same order, repeated tokens included, with further tokens inserted
  anywhere), the addition has the laws of \<open>rounded_addition\<close>, which the addition of
  doubles has, and the stored TF-IDF weights of the document are not negative, then the
  document's score under \<open>q1\<close> is at least its score under \<open>q2\<close>.
\<close>

theorem documentScore_monotone:
  assumes "subseq ts2 ts1"
    and "rounded_addition L"
    and "weights_nonneg L ix docPath"
    and "documentScore L ix ts1 docPath doc = Inr s1"
    and "documentScore L ix ts2 docPath doc = Inr s2"
  shows "s2 \<le> s1"
proof -
  note L = assms(2) and sub = assms(1)
  have lit: "js_num L 0 \<le> js_num L 1" "js_num L 0 \<le> js_num L 3" "js_num L 0 \<le> js_num L 5"
    using L by (simp_all add: rounded_addition_def)
  have z: "score_value L (js_num L 0)" by (simp add: score_value_def)
  define K where "K = (\<lambda>ts. keyword_points L ix docPath ts (js_num L 0))"
  define F where "F = (\<lambda>ts. tfidf_points L ix docPath ts (K ts))"
  define T where "T = (\<lambda>ts. title_points L doc ts (F ts))"
  have K: "K ts2 \<le> K ts1" "score_value L (K ts2)" "score_value L (K ts1)"
    using loop_subseq_mono[where c = "\<lambda>token. case jsmap_get (keywords_index ix) token of
                                                 None \<Rightarrow> False | Some ds \<Rightarrow> docPath \<in> set ds"
                             and w = "\<lambda>t. js_num L 1", OF L _ sub z z] lit(1)
    by (simp_all add: K_def keyword_points_def)
  have F: "F ts2 \<le> F ts1 \<and> score_value L (F ts2) \<and> score_value L (F ts1)"
  proof (cases "jsmap_get (tfidf ix) docPath")
    case None
    then show ?thesis using K by (simp add: F_def tfidf_points_def)
  next
    case (Some tfidfScores)
    let ?w = "\<lambda>token. case jsmap_get tfidfScores token of None \<Rightarrow> js_num L 0 | Some w \<Rightarrow> w"
    have w: "js_num L 0 \<le> ?w t" for t
      using assms(3) Some by (rule stored_weight_nonneg)
    from loop_subseq_mono[where c = "\<lambda>t. True" and w = ?w, OF L w sub K(2,3) K(1)]
    show ?thesis by (simp add: F_def tfidf_points_def Some)
  qed
  have T: "T ts2 \<le> T ts1" "score_value L (T ts2)" "score_value L (T ts1)"
    using loop_subseq_mono[where c = "\<lambda>token. str_includes
                                 (case title (metadata doc) of SStr t \<Rightarrow> toLowerCase t | _ \<Rightarrow> [])
                                 token"
                             and w = "\<lambda>t. js_num L 5" and ?s2.0 = "F ts2" and ?s1.0 = "F ts1",
                           OF L _ sub] F lit(3)
    by (simp_all add: T_def title_points_def Let_def)
  from assms(4) have s1: "s1 = fold (\<lambda>t s. if opt_some (tags (metadata doc)) (\<lambda>tag. str_includes (toLowerCase tag) t)
                       = Inr True
                    then js_add L s (js_num L 3) else s) ts1 (T ts1)"
    unfolding documentScore_def T_def F_def K_def by (rule tag_points_fold)
  from assms(5) have s2: "s2 = fold (\<lambda>t s. if opt_some (tags (metadata doc)) (\<lambda>tag. str_includes (toLowerCase tag) t)
                       = Inr True
                    then js_add L s (js_num L 3) else s) ts2 (T ts2)"
    unfolding documentScore_def T_def F_def K_def by (rule tag_points_fold)
  show ?thesis unfolding s1 s2
    by (rule loop_subseq_mono(1)[OF L _ sub T(2,3) T(1)]) (simp add: lit)
qed

lemma tag_points_total:
  "tags (metadata doc) = Arr tgl \<Longrightarrow> \<exists>r. tag_points L doc ts s0 = Inr r"
  by (induction ts arbitrary: s0) simp_all

lemma documentScore_total:
  "tags (metadata doc) = Arr tgl \<Longrightarrow> \<exists>s. documentScore L ix ts docPath doc = Inr s"
  by (simp add: documentScore_def tag_points_total)

theorem documentScore_monotone_witness:
  "subseq [''auth''] [''login'', ''auth'']
   \<and> rounded_addition demoL
   \<and> weights_nonneg demoL (index demo_built) ''api/auth.md''
   \<and> documentScore demoL (index demo_built) [''login'', ''auth''] ''api/auth.md'' auth_doc
       = Inr (8 * 2 ^ 60)
   \<and> documentScore demoL (index demo_built) [''auth''] ''api/auth.md'' auth_doc
       = Inr (13 * 2 ^ 59)
   \<and> (13 * 2 ^ 59 :: int) \<le> 8 * 2 ^ 60"
proof -
  have a: "subseq [''auth''] [''login'', ''auth'']" by simp
  have b: "weights_nonneg demoL (index demo_built) ''api/auth.md''"
    by code_simp
  have c: "documentScore demoL (index demo_built) [''login'', ''auth''] ''api/auth.md'' auth_doc
           = Inr (8 * 2 ^ 60)"
    by code_simp
  have d: "documentScore demoL (index demo_built) [''auth''] ''api/auth.md'' auth_doc
           = Inr (13 * 2 ^ 59)"
    by code_simp
  have e: "(13 * 2 ^ 59 :: int) \<le> 8 * 2 ^ 60"
    by (rule documentScore_monotone [OF a demoL_laws b c d])
  from a demoL_laws b c d e show ?thesis by blast
qed

text \<open>
  C9 as stated fails. The queries \<open>ok md js\<close> and \<open>md js ok\<close> have the same token set,
  but the first scores \<open>1/2\<close> and the second more: added to \<open>1/2\<close> one at a time, the
  two weights \<open>1 / 2 ^ 54\<close> are rounded away, added to each other first they count. And
  \<open>ok\<close> and \<open>ok ok\<close> have the same token set, but the second scores twice as much.
\<close>

theorem documentScore_token_set_counterexample:
  "buildIndex roundL round_fs demo_indexer = (None, round_built)
   \<and> getDocument round_built ''w.md'' = Some w_doc
   \<and> tokenize roundL (toLowerCase ''ok md js'') = [''ok'', ''md'', ''js'']
   \<and> tokenize roundL (toLowerCase ''md js ok'') = [''md'', ''js'', ''ok'']
   \<and> set [''md'', ''js'', ''ok''] \<subseteq> set [''ok'', ''md'', ''js'']
   \<and> documentScore roundL (index round_built) [''ok'', ''md'', ''js''] ''w.md'' w_doc
       = Inr (2 ^ 59)
   \<and> documentScore roundL (index round_built) [''md'', ''js'', ''ok''] ''w.md'' w_doc
       = Inr (2 ^ 59 + 2 ^ 7)
   \<and> (2 ^ 59 :: int) < 2 ^ 59 + 2 ^ 7
   \<and> tokenize roundL (toLowerCase ''ok'') = [''ok'']
   \<and> tokenize roundL (toLowerCase ''ok ok'') = [''ok'', ''ok'']
   \<and> set [''ok'', ''ok''] \<subseteq> set [''ok'']
   \<and> documentScore roundL (index round_built) [''ok''] ''w.md'' w_doc = Inr (2 ^ 59)
   \<and> documentScore roundL (index round_built) [''ok'', ''ok''] ''w.md'' w_doc = Inr (2 ^ 60)
   \<and> (2 ^ 59 :: int) < 2 ^ 60
   \<and> search roundL round_built ''ok md js'' None None = Inr [''w.md'']
   \<and> search roundL round_built ''md js ok'' None None = Inr [''w.md'']"
  by code_simp

subsection \<open>Shared-category edges\<close>

text \<open>The relationship sets after a build that resolved.\<close>

lemma implicit_related_category:
  "implicit_related docPath doc docs rel = Inr rel' \<Longrightarrow>
   set rel \<subseteq> set rel'
   \<and> (\<forall>(otherPath, otherDoc) \<in> set docs.
         otherPath \<noteq> docPath \<and> truthy_str (category (metadata doc))
         \<and> category (metadata doc) = category (metadata otherDoc)
         \<longrightarrow> otherPath \<in> set rel')"
proof (induction docs arbitrary: rel)
  case Nil
  then show ?case by simp
next
  case (Cons entry rest)
  obtain otherPath otherDoc where entry: "entry = (otherPath, otherDoc)" by (cases entry)
  show ?case
  proof (cases "otherPath = docPath")
    case True
    with Cons.prems entry have "implicit_related docPath doc rest rel = Inr rel'" by simp
    from Cons.IH [OF this] True entry show ?thesis by auto
  next
    case False
    let ?rel1 = "if truthy_str (category (metadata doc))
                    \<and> category (metadata doc) = category (metadata otherDoc)
                 then jsset_add rel otherPath else rel"
    let ?shared = "opt_filter (tags (metadata doc))
                     (\<lambda>tag. opt_includes (tags (metadata otherDoc)) tag)"
    from Cons.prems entry False obtain sharedTags where sh: "?shared = Inr sharedTags"
      by (cases ?shared) (simp_all add: Let_def)
    with Cons.prems entry False
    have "implicit_related docPath doc rest
         (if length sharedTags \<ge> 2 then jsset_add ?rel1 otherPath else ?rel1) = Inr rel'"
      by (simp add: Let_def)
    from Cons.IH [OF this]
    have sub: "set (if length sharedTags \<ge> 2 then jsset_add ?rel1 otherPath else ?rel1)
               \<subseteq> set rel'"
      and rest: "\<forall>(otherPath, otherDoc) \<in> set rest.
         otherPath \<noteq> docPath \<and> truthy_str (category (metadata doc))
         \<and> category (metadata doc) = category (metadata otherDoc)
         \<longrightarrow> otherPath \<in> set rel'"
      by blast+
    have r1: "set ?rel1 \<subseteq> set (if length sharedTags \<ge> 2 then jsset_add ?rel1 otherPath else ?rel1)"
      by (auto simp: jsset_add_set)
    have r0: "set rel \<subseteq> set ?rel1"
      by (auto simp: jsset_add_set)
    have here: "otherPath \<in> set ?rel1"
      if "truthy_str (category (metadata doc))"
        and "category (metadata doc) = category (metadata otherDoc)"
      using that by (simp add: jsset_add_set)
    from sub r1 r0 have "set rel \<subseteq> set rel'" by blast
    moreover from sub r1 here
    have "truthy_str (category (metadata doc))
          \<and> category (metadata doc) = category (metadata otherDoc)
          \<longrightarrow> otherPath \<in> set rel'"
      by blast
    ultimately show ?thesis using rest entry by auto
  qed
qed

lemma linked_related_mono: "set rel \<subseteq> set (linked_related this doc rel)"
proof -
  have "set rel \<subseteq> set (fold (\<lambda>target r.
             let linkedPath = normalizePath this target
             in if jsmap_has (documents (index this)) linkedPath
                then jsset_add r linkedPath else r) targets rel)" for targets
  proof (induction targets arbitrary: rel)
    case Nil
    then show ?case by simp
  next
    case (Cons target targets)
    let ?r1 = "let linkedPath = normalizePath this target
               in if jsmap_has (documents (index this)) linkedPath
                  then jsset_add rel linkedPath else rel"
    have "set rel \<subseteq> set ?r1" by (auto simp: Let_def jsset_add_set)
    with Cons.IH [of ?r1] show ?case by auto
  qed
  then show ?thesis by (simp add: linked_related_def)
qed

lemma relatedOf_category:
  assumes "relatedOf this docPath doc = Inr rel"
    and "(otherPath, otherDoc) \<in> set (documents (index this))"
    and "otherPath \<noteq> docPath"
    and "truthy_str (category (metadata doc))"
    and "category (metadata doc) = category (metadata otherDoc)"
  shows "otherPath \<in> set rel"
proof -
  from assms(1) obtain rel0 rel1 where
    "implicit_related docPath doc (documents (index this)) rel0 = Inr rel1"
    and rel: "rel = linked_related this doc rel1"
    by (auto simp: relatedOf_def split: sum.splits)
  from implicit_related_category [OF this(1)] assms(2-5) have "otherPath \<in> set rel1"
    by blast
  with linked_related_mono [of rel1 this doc] rel show ?thesis by blast
qed

lemma relationships_loop_result:
  "relationships_loop this docs rels = (None, rels') \<Longrightarrow> distinct (map fst docs) \<Longrightarrow>
   (\<forall>(docPath, doc) \<in> set docs.
      \<exists>rel. relatedOf this docPath doc = Inr rel \<and> jsmap_get rels' docPath = Some rel)
   \<and> (\<forall>k. k \<notin> fst ` set docs \<longrightarrow> jsmap_get rels' k = jsmap_get rels k)"
proof (induction docs arbitrary: rels)
  case Nil
  then show ?case by simp
next
  case (Cons entry rest)
  obtain docPath doc where entry: "entry = (docPath, doc)" by (cases entry)
  from Cons.prems(1) entry obtain rel where
    rel: "relatedOf this docPath doc = Inr rel"
    and loop: "relationships_loop this rest (jsmap_set rels docPath rel) = (None, rels')"
    by (auto split: sum.splits)
  from Cons.prems(2) entry have dist: "distinct (map fst rest)" and fresh: "docPath \<notin> fst ` set rest"
    by auto
  from Cons.IH [OF loop dist]
  have ih1: "\<forall>(docPath, doc) \<in> set rest.
      \<exists>rel. relatedOf this docPath doc = Inr rel \<and> jsmap_get rels' docPath = Some rel"
    and ih2: "\<forall>k. k \<notin> fst ` set rest \<longrightarrow>
                jsmap_get rels' k = jsmap_get (jsmap_set rels docPath rel) k"
    by blast+
  from ih2 fresh have "jsmap_get rels' docPath = Some rel"
    by (simp add: jsmap_get_set)
  with rel ih1 entry
  have "\<forall>(docPath, doc) \<in> set (entry # rest).
      \<exists>rel. relatedOf this docPath doc = Inr rel \<and> jsmap_get rels' docPath = Some rel"
    by auto
  moreover from ih2 entry
  have "\<forall>k. k \<notin> fst ` set (entry # rest) \<longrightarrow> jsmap_get rels' k = jsmap_get rels k"
    by (auto simp: jsmap_get_set)
  ultimately show ?case by blast
qed

lemma built_category_edge:
  assumes "buildIndex L fs this = (None, this')"
    and "getDocument this' p1 = Some d1"
    and "getDocument this' p2 = Some d2"
    and "p1 \<noteq> p2"
    and "category (metadata d1) = SStr c"
    and "category (metadata d2) = SStr c"
    and "c \<noteq> []"
  shows "\<exists>r1. jsmap_get (relationships (index this')) p1 = Some r1 \<and> p2 \<in> set r1"
proof -
  from buildIndex_frame [of L fs this] assms(1) obtain tc R where
    t': "this' = tc\<lparr>index := (index tc)\<lparr>relationships := R\<rparr>\<rparr>"
    and ok: "fst (buildRelationships tc) = None"
    and R: "R = relationships (index (snd (buildRelationships tc)))"
    and dist: "distinct (map fst (documents (index tc)))"
    by auto
  obtain err rels where
    loop: "relationships_loop tc (documents (index tc)) (relationships (index tc)) = (err, rels)"
    by (cases "relationships_loop tc (documents (index tc)) (relationships (index tc))")
  with ok R have err: "err = None" and rels: "R = rels"
    by (simp_all add: buildRelationships_def)
  from assms(2,3) have in1: "(p1, d1) \<in> set (documents (index tc))"
    and in2: "(p2, d2) \<in> set (documents (index tc))"
    by (auto simp: t' getDocument_def jsmap_get_def dest: map_of_SomeD)
  from relationships_loop_result [OF loop [unfolded err] dist] in1 obtain r1 where
    r1: "relatedOf tc p1 d1 = Inr r1" and get: "jsmap_get rels p1 = Some r1"
    by blast
  from assms(4) have "p2 \<noteq> p1" by simp
  from relatedOf_category [OF r1 in2 this] assms(5-7) have "p2 \<in> set r1" by simp
  with get rels show ?thesis by (simp add: t')
qed

text \<open>
  C6: after a build that resolved, two distinct documents whose categories are the same
  non-empty string are each in the relationship set of the other.
\<close>

theorem shared_category_symmetric:
  assumes "buildIndex L fs this = (None, this')"
    and "getDocument this' p1 = Some d1"
    and "getDocument this' p2 = Some d2"
    and "p1 \<noteq> p2"
    and "category (metadata d1) = SStr c"
    and "category (metadata d2) = SStr c"
    and "c \<noteq> []"
  shows "\<exists>r1 r2. jsmap_get (relationships (index this')) p1 = Some r1 \<and> p2 \<in> set r1
                \<and> jsmap_get (relationships (index this')) p2 = Some r2 \<and> p1 \<in> set r2"
proof -
  from assms(4) have ne: "p2 \<noteq> p1" by simp
  from built_category_edge [OF assms(1,2,3,4,5,6,7)]
    built_category_edge [OF assms(1,3,2) ne assms(6,5,7)]
  show ?thesis by blast
qed

theorem shared_category_symmetric_witness:
  "buildIndex demoL demo_fs demo_indexer = (None, demo_built)
   \<and> getDocument demo_built ''api/auth.md'' = Some auth_doc
   \<and> getDocument demo_built ''api/users.md'' = Some users_doc
   \<and> ''api/auth.md'' \<noteq> ''api/users.md''
   \<and> category (metadata auth_doc) = SStr ''api''
   \<and> category (metadata users_doc) = SStr ''api''
   \<and> ''api'' \<noteq> []
   \<and> (\<exists>r1 r2. jsmap_get (relationships (index demo_built)) ''api/auth.md'' = Some r1
                \<and> ''api/users.md'' \<in> set r1
                \<and> jsmap_get (relationships (index demo_built)) ''api/users.md'' = Some r2
                \<and> ''api/auth.md'' \<in> set r2)"
proof -
  have a: "getDocument demo_built ''api/auth.md'' = Some auth_doc"
    by (simp add: getDocument_def jsmap_get_def demo_built_def)
  have b: "getDocument demo_built ''api/users.md'' = Some users_doc"
    by (simp add: getDocument_def jsmap_get_def demo_built_def)
  have n: "''api/auth.md'' \<noteq> ''api/users.md''" by simp
  have c1: "category (metadata auth_doc) = SStr ''api''" by (simp add: auth_doc_def)
  have c2: "category (metadata users_doc) = SStr ''api''" by (simp add: users_doc_def)
  have e: "''api'' \<noteq> []" by simp
  from shared_category_symmetric [OF demo_build a b n c1 c2 e] demo_build a b n c1 c2 e
  show ?thesis by blast
qed


subsection \<open>The form of a relative path\<close>

lemma split_char_no_sep: "s \<in> set (split_char sep p) \<Longrightarrow> sep \<notin> set s"
proof (induction p arbitrary: s)
  case Nil
  then show ?case by simp
next
  case (Cons c p)
  then show ?case
    by (cases "split_char sep p") (auto split: if_splits)
qed

lemma resolve_step_plain:
  "CHR ''/'' \<notin> set seg \<Longrightarrow> list_all plain_segment st \<Longrightarrow>
   list_all plain_segment (resolve_step seg st)"
  by (auto simp: resolve_step_def plain_segment_def list_all_iff dest: in_set_butlastD)

lemma fold_resolve_plain:
  "\<forall>seg \<in> set segs. CHR ''/'' \<notin> set seg \<Longrightarrow> list_all plain_segment st \<Longrightarrow>
   list_all plain_segment (fold resolve_step segs st)"
  by (induction segs arbitrary: st) (simp_all add: resolve_step_plain)

lemma path_resolve_plain: "list_all plain_segment (path_resolve wd p)"
  unfolding path_resolve_def
  by (rule fold_resolve_plain) (auto dest: split_char_no_sep)

lemma join_plain_not_absolute:
  "list_all plain_segment segs \<Longrightarrow> \<not> path_isAbsolute (join_with ''/'' segs)"
proof (cases segs)
  case Nil
  then show ?thesis by (simp add: path_isAbsolute_def)
next
  case (Cons s rest)
  assume "list_all plain_segment segs"
  with Cons obtain c cs where s: "s = c # cs" and c: "c \<noteq> CHR ''/''"
    by (cases s) (auto simp: plain_segment_def)
  with Cons show ?thesis
    by (cases rest) (simp_all add: path_isAbsolute_def)
qed

lemma join_plain_no_dot_prefix:
  "list_all plain_segment segs \<Longrightarrow> \<not> prefix ''./'' (join_with ''/'' segs)"
proof (cases segs)
  case Nil
  then show ?thesis by simp
next
  case (Cons s rest)
  assume "list_all plain_segment segs"
  with Cons have p: "plain_segment s" by simp
  then obtain c cs where s: "s = c # cs" by (cases s) (auto simp: plain_segment_def)
  show ?thesis
  proof (cases cs)
    case Nil
    with p s have "c \<noteq> CHR ''.''" by (auto simp: plain_segment_def)
    with Cons s show ?thesis by (cases rest) simp_all
  next
    case (Cons d ds)
    with p s have "d \<noteq> CHR ''/''" by (auto simp: plain_segment_def)
    with \<open>segs = s # rest\<close> s Cons show ?thesis by (cases rest) simp_all
  qed
qed

lemma path_relative_form:
  "\<not> path_isAbsolute (path_relative wd from to) \<and> \<not> prefix ''./'' (path_relative wd from to)"
proof -
  let ?f = "path_resolve wd from" and ?t = "path_resolve wd to"
  let ?n = "common_prefix_length ?f ?t"
  have "list_all plain_segment (drop ?n ?t)"
    using path_resolve_plain [of wd to] by (auto simp: list_all_iff dest: in_set_dropD)
  moreover have "list_all plain_segment (replicate (length ?f - ?n) ''..'')"
    by (simp add: list_all_iff plain_segment_def)
  ultimately have "list_all plain_segment (replicate (length ?f - ?n) ''..'' @ drop ?n ?t)"
    by simp
  then show ?thesis
    by (simp add: path_relative_def Let_def join_plain_not_absolute join_plain_no_dot_prefix)
qed

subsection \<open>getDocument\<close>

lemma indexDocument_cases:
  "indexDocument L fs f t = t
   \<or> (\<exists>doc. path doc = getRelativePath t f
            \<and> indexDocument L fs f t = snd (registerDocument L doc t))"
proof (cases "readFile fs f")
  case (Inl e)
  then show ?thesis by (simp add: indexDocument_def indexDocument_try_def)
next
  case rd: (Inr body)
  show ?thesis
  proof (cases "stat_mtimeMs fs f")
    case (Inl e)
    with rd show ?thesis by (simp add: indexDocument_def indexDocument_try_def)
  next
    case mtime: (Inr mtimeMs)
    show ?thesis
    proof (cases "matter L body")
      case (Inl e)
      with rd mtime show ?thesis by (simp add: indexDocument_def indexDocument_try_def)
    next
      case (Inr parsed)
      let ?doc = "\<lparr>path = getRelativePath t f, content = fm_content parsed,
                    metadata = buildMetadata t f parsed, lastModified = mtimeMs\<rparr>"
      have "path ?doc = getRelativePath t f" by simp
      moreover from rd mtime Inr
      have "indexDocument L fs f t = snd (registerDocument L ?doc t)"
        by (simp add: indexDocument_def indexDocument_try_def)
      ultimately show ?thesis by blast
    qed
  qed
qed

lemma indexDocument_relative_keys:
  assumes "relative_keys t"
  shows "relative_keys (indexDocument L fs f t)"
  using indexDocument_cases [of L fs f t]
proof
  assume "indexDocument L fs f t = t"
  with assms show ?thesis by simp
next
  assume "\<exists>doc. path doc = getRelativePath t f
            \<and> indexDocument L fs f t = snd (registerDocument L doc t)"
  then obtain doc where pd: "path doc = getRelativePath t f"
    and d: "indexDocument L fs f t = snd (registerDocument L doc t)"
    by blast
  from registerDocument_frame [of L doc t] obtain K C T where
    eq: "snd (registerDocument L doc t)
     = t\<lparr>index := (index t)\<lparr>documents := jsmap_set (documents (index t)) (path doc) doc,
                              keywords_index := K, categories := C, tags_index := T\<rparr>\<rparr>"
    by blast
  have docs: "documents (index (indexDocument L fs f t))
              = jsmap_set (documents (index t)) (getRelativePath t f) doc"
    by (simp add: d eq pd)
  have keys: "set (jsmap_keys (jsmap_set (documents (index t)) (getRelativePath t f) doc))
              = insert (getRelativePath t f) (set (jsmap_keys (documents (index t))))"
    using jsmap_set_keys [of "documents (index t)" "getRelativePath t f" doc]
    by (simp add: jsmap_keys_def)
  have new: "\<not> path_isAbsolute (getRelativePath t f) \<and> \<not> prefix ''./'' (getRelativePath t f)"
    unfolding getRelativePath_def by (rule path_relative_form)
  from assms new show ?thesis
    unfolding relative_keys_def list_all_iff docs keys by blast
qed

lemma indexDocuments_relative_keys:
  "relative_keys t \<Longrightarrow> relative_keys (fold (indexDocument L fs) files t)"
  by (induction files arbitrary: t) (simp_all add: indexDocument_relative_keys)


lemma built_relative_keys:
  "distinct (jsmap_keys (documents (index (snd (buildIndex L fs this)))))
   \<and> relative_keys (snd (buildIndex L fs this))"
proof -
  define ta where "ta = this\<lparr>index := empty_index\<rparr>"
  define files where "files = findMarkdownFiles (docsPath ta) (root_entries fs)"
  define tb where "tb = fold (indexDocument L fs) files ta"
  define tc where "tc = buildTfIdfIndex L tb"
  have b: "buildIndex L fs this = buildRelationships tc"
    by (simp add: buildIndex_def Let_def tc_def tb_def files_def ta_def)
  have "relative_keys ta"
    by (simp add: relative_keys_def ta_def empty_index_def jsmap_keys_def)
  then have rb: "relative_keys tb"
    unfolding tb_def by (rule indexDocuments_relative_keys)
  from buildTfIdfIndex_frame [of L tb] obtain TF where
    "tc = tb\<lparr>index := (index tb)\<lparr>tfidf := TF\<rparr>\<rparr>"
    unfolding tc_def by blast
  then have dc: "documents (index tc) = documents (index tb)" by simp
  from buildRelationships_frame [of tc] obtain R where
    "snd (buildRelationships tc) = tc\<lparr>index := (index tc)\<lparr>relationships := R\<rparr>\<rparr>"
    by blast
  then have dr: "documents (index (snd (buildIndex L fs this))) = documents (index tb)"
    by (simp add: b dc)
  from buildIndex_frame [of L fs this] obtain this2 R2 where
    "snd (buildIndex L fs this) = this2\<lparr>index := (index this2)\<lparr>relationships := R2\<rparr>\<rparr>"
    and "distinct (map fst (documents (index this2)))"
    by blast
  then have "distinct (jsmap_keys (documents (index (snd (buildIndex L fs this)))))"
    by (simp add: jsmap_keys_def)
  moreover from rb have "relative_keys (snd (buildIndex L fs this))"
    by (simp add: relative_keys_def dr)
  ultimately show ?thesis by blast
qed

text \<open>
  C10: \<open>getDocument\<close> is an exact-key lookup in the documents map and applies no
  normalisation to its argument. On the snapshot a build leaves, it returns a document
  \<open>d\<close> exactly when the pair of the argument and \<open>d\<close> is an entry of the map, it returns
  nothing exactly when the argument is, character for character, none of the stored keys,
  and so it returns nothing for an absolute path and for a path with the prefix \<open>./\<close>:
  the stored keys are results of \<open>path.relative\<close>, which never have these forms.
\<close>

theorem getDocument_exact_key:
  assumes "buildIndex L fs this = (err, this')"
  shows "((getDocument this' docId = Some d) = ((docId, d) \<in> set (documents (index this'))))
         \<and> ((getDocument this' docId = None)
              = (docId \<notin> set (jsmap_keys (documents (index this')))))
         \<and> (path_isAbsolute docId \<or> prefix ''./'' docId \<longrightarrow> getDocument this' docId = None)"
proof -
  from built_relative_keys [of L fs this] assms
  have dist: "distinct (jsmap_keys (documents (index this')))"
    and rel: "relative_keys this'"
    by simp_all
  from dist have "distinct (map fst (documents (index this')))"
    by (simp add: jsmap_keys_def)
  then have 1: "(getDocument this' docId = Some d) = ((docId, d) \<in> set (documents (index this')))"
    by (simp add: getDocument_def jsmap_get_def)
  have 2: "(getDocument this' docId = None)
           = (docId \<notin> set (jsmap_keys (documents (index this'))))"
    by (simp add: getDocument_def jsmap_get_def jsmap_keys_def map_of_eq_None_iff)
  have 3: "getDocument this' docId = None" if "path_isAbsolute docId \<or> prefix ''./'' docId"
  proof -
    from rel that have "docId \<notin> set (jsmap_keys (documents (index this')))"
      by (auto simp: relative_keys_def list_all_iff)
    with 2 show ?thesis by simp
  qed
  from 1 2 3 show ?thesis by blast
qed

theorem getDocument_exact_key_witness:
  "buildIndex demoL demo_fs demo_indexer = (None, demo_built)
   \<and> getDocument demo_built ''readme.md'' = Some readme_doc
   \<and> prefix ''./'' ''./readme.md''
   \<and> getDocument demo_built ''./readme.md'' = None
   \<and> normalizePath demo_built ''./readme.md'' = ''readme.md''
   \<and> path_isAbsolute ''/docs/readme.md''
   \<and> getDocument demo_built ''/docs/readme.md'' = None
   \<and> normalizePath demo_built ''/docs/readme.md'' = ''readme.md''"
proof -
  have a: "(''readme.md'', readme_doc) \<in> set (documents (index demo_built))"
    by (simp add: demo_built_def)
  have p: "prefix ''./'' ''./readme.md''" by simp
  have q: "path_isAbsolute ''/docs/readme.md''" by (simp add: path_isAbsolute_def)
  have n: "normalizePath demo_built ''./readme.md'' = ''readme.md''
           \<and> normalizePath demo_built ''/docs/readme.md'' = ''readme.md''"
    by code_simp
  from getDocument_exact_key [OF demo_build, of "''readme.md''" readme_doc] a
  have 1: "getDocument demo_built ''readme.md'' = Some readme_doc" by simp
  from getDocument_exact_key [OF demo_build, of "''./readme.md''" readme_doc] p
  have 2: "getDocument demo_built ''./readme.md'' = None" by blast
  from getDocument_exact_key [OF demo_build, of "''/docs/readme.md''" readme_doc] q
  have 3: "getDocument demo_built ''/docs/readme.md'' = None" by blast
  from demo_build 1 2 3 p q n show ?thesis by simp
qed


end
